theory Spec2Isabelle
  imports Main "HOL-Library.Sublist"
begin

section \<open>Context Builder\<close>

text \<open>
  Source: \<^verbatim>\<open>chat.py\<close>, \<^verbatim>\<open>build_conversation_context\<close>.
  A conversation turn is a Python dict with string values, read only through
  \<^verbatim>\<open>msg.get\<close>; it is a map from keys to strings.  Text is a list of
  characters.
\<close>

type_synonym msg = "string \<rightharpoonup> string"

text \<open>\<^verbatim>\<open>d.get(k, default)\<close>\<close>

definition dict_get :: "('k \<rightharpoonup> 'v) \<Rightarrow> 'k \<Rightarrow> 'v \<Rightarrow> 'v" where
  "dict_get d k dflt = (case d k of None \<Rightarrow> dflt | Some v \<Rightarrow> v)"

text \<open>\<^verbatim>\<open>xs[-n:]\<close> for a positive \<open>n\<close>: the last \<open>n\<close> elements, all of them when
  the list is shorter.\<close>

definition last_n :: "nat \<Rightarrow> 'a list \<Rightarrow> 'a list" where
  "last_n n xs = drop (length xs - n) xs"

definition context_header :: string where
  "context_header = ''\<newline>\<newline>CONVERSATION CONTEXT:\<newline>''"

text \<open>\<^verbatim>\<open>role = "User" if msg.get('role') == 'user' else "Assistant"\<close>\<close>

definition role_of :: "msg \<Rightarrow> string" where
  "role_of m = (if m ''role'' = Some ''user'' then ''User'' else ''Assistant'')"

text \<open>The text one pass of the loop body appends:
  \<^verbatim>\<open>f"{role}: {msg.get('content', '')}\n"\<close>\<close>

definition turn_line :: "msg \<Rightarrow> string" where
  "turn_line m = role_of m @ '': '' @ dict_get m ''content'' '''' @ ''\<newline>''"

text \<open>The \<^verbatim>\<open>for\<close> loop, with the accumulator \<^verbatim>\<open>context\<close> passed along.\<close>

fun context_loop :: "string \<Rightarrow> msg list \<Rightarrow> string" where
  "context_loop context [] = context"
| "context_loop context (m # ms) = context_loop (context @ turn_line m) ms"

definition build_conversation_context :: "msg list \<Rightarrow> string" where
  "build_conversation_context conversation_history =
     (if conversation_history = [] then ''''
      else context_loop context_header (last_n 10 conversation_history) @ ''\<newline>'')"

text \<open>The rendering the specification describes for a turn, \<^verbatim>\<open>"<Role>: <content>"\<close>,
  and its way of putting the turns together: joined with newlines, between the header
  and one trailing newline.\<close>

definition turn_text :: "msg \<Rightarrow> string" where
  "turn_text m = role_of m @ '': '' @ dict_get m ''content'' ''''"

fun join_newline :: "string list \<Rightarrow> string" where
  "join_newline [] = ''''"
| "join_newline [l] = l"
| "join_newline (l # ls) = l @ ''\<newline>'' @ join_newline ls"

definition spec_conversation_context :: "msg list \<Rightarrow> string" where
  "spec_conversation_context h =
     context_header @ join_newline (map turn_text (last_n 10 h)) @ ''\<newline>''"

section \<open>Regular expressions of the Response Formatter\<close>

text \<open>
  Text is a list of 8-bit characters, read as the code points 0 to 255.  The character
  classes are those of Python's \<^verbatim>\<open>re\<close> on \<^verbatim>\<open>str\<close> patterns in that range:
  \<^verbatim>\<open>\s\<close> and \<^verbatim>\<open>str.strip\<close> take the white space of \<^verbatim>\<open>str.isspace\<close>
  (9 to 13, 28 to 32, 133 and 160), \<^verbatim>\<open>\d\<close> the decimal digits.
\<close>

definition is_space :: "char \<Rightarrow> bool" where
  "is_space c = (let n = (of_char c :: nat) in
     (9 \<le> n \<and> n \<le> 13) \<or> (28 \<le> n \<and> n \<le> 32) \<or> n = 133 \<or> n = 160)"

definition is_upper :: "char \<Rightarrow> bool" where
  "is_upper c = (let n = (of_char c :: nat) in 65 \<le> n \<and> n \<le> 90)"

definition is_digit :: "char \<Rightarrow> bool" where
  "is_digit c = (let n = (of_char c :: nat) in 48 \<le> n \<and> n \<le> 57)"

text \<open>
  Every pattern of the formatter is a sequence of character classes, each with a greedy
  repetition \<^verbatim>\<open>{lo,hi}\<close> (no upper bound when \<open>hi\<close> is \<open>None\<close>), some of them inside a
  numbered group.  A pattern is the list of its atoms, each with the number of the group
  it lies in (0 for none).
\<close>

datatype atom = Rep "char \<Rightarrow> bool" nat "nat option"

type_synonym pattern = "(nat \<times> atom) list"

definition rx_one :: "(char \<Rightarrow> bool) \<Rightarrow> atom" where
  "rx_one c = Rep c 1 (Some 1)"

definition rx_plus :: "(char \<Rightarrow> bool) \<Rightarrow> atom" where
  "rx_plus c = Rep c 1 None"

definition rx_star :: "(char \<Rightarrow> bool) \<Rightarrow> atom" where
  "rx_star c = Rep c 0 None"

definition rx_at_least :: "nat \<Rightarrow> (char \<Rightarrow> bool) \<Rightarrow> atom" where
  "rx_at_least n c = Rep c n None"

fun least :: "atom \<Rightarrow> nat" where
  "least (Rep c lo hi) = lo"

text \<open>The longest repetition an atom can take at the start of \<open>s\<close>.\<close>

fun most :: "atom \<Rightarrow> string \<Rightarrow> nat" where
  "most (Rep c lo None) s = length (takeWhile c s)"
| "most (Rep c lo (Some hi)) s = min hi (length (takeWhile c s))"

text \<open>Backtracking: the counts \<open>k\<close>, \<open>k - 1\<close>, ... down to \<open>lo\<close> are tried in this
  order and the first that lets the rest of the pattern match is taken.\<close>

fun first_down :: "nat \<Rightarrow> nat \<Rightarrow> (nat \<Rightarrow> 'a option) \<Rightarrow> 'a option" where
  "first_down lo k f =
     (if k < lo then None
      else case f k of
        Some r \<Rightarrow> Some r
      | None \<Rightarrow> (if k = 0 then None else first_down lo (k - 1) f))"

declare first_down.simps [simp del]

text \<open>A match of the pattern at the start of \<open>s\<close>: the text each atom took, and the
  text after the match.\<close>

primrec match_here :: "pattern \<Rightarrow> string \<Rightarrow> (string list \<times> string) option" where
  "match_here [] s = Some ([], s)"
| "match_here (a # as) s =
     first_down (least (snd a)) (most (snd a) s)
       (\<lambda>k. case match_here as (drop k s) of
               None \<Rightarrow> None
             | Some (ps, r) \<Rightarrow> Some (take k s # ps, r))"

text \<open>Replacement templates: literal text and group references \<^verbatim>\<open>\1\<close>, \<^verbatim>\<open>\2\<close>.\<close>

datatype tok = Lit string | Ref nat

fun group_text :: "nat \<Rightarrow> pattern \<Rightarrow> string list \<Rightarrow> string" where
  "group_text g ((g', a) # as) (p # ps) = (if g' = g then p else []) @ group_text g as ps"
| "group_text g _ _ = []"

fun expand :: "tok list \<Rightarrow> pattern \<Rightarrow> string list \<Rightarrow> string" where
  "expand [] pat ps = []"
| "expand (Lit s # ts) pat ps = s @ expand ts pat ps"
| "expand (Ref g # ts) pat ps = group_text g pat ps @ expand ts pat ps"

text \<open>
  \<^verbatim>\<open>re.sub(pattern, repl, text)\<close>: the text is scanned from the left; the leftmost
  match is replaced and the scan goes on after it.  A match of no character (no pattern
  of the formatter has one) is replaced and the scan goes on after the next character.
\<close>

function re_sub :: "pattern \<Rightarrow> tok list \<Rightarrow> string \<Rightarrow> string" where
  "re_sub pat repl [] =
     (case match_here pat [] of None \<Rightarrow> [] | Some (ps, r) \<Rightarrow> expand repl pat ps)"
| "re_sub pat repl (c # cs) =
     (case match_here pat (c # cs) of
        None \<Rightarrow> c # re_sub pat repl cs
      | Some (ps, r) \<Rightarrow>
          if length r < length (c # cs) then expand repl pat ps @ re_sub pat repl r
          else expand repl pat ps @ c # re_sub pat repl cs)"
  by pat_completeness auto
termination
  by (relation "measure (\<lambda>(pat, repl, s). length s)") auto

text \<open>\<^verbatim>\<open>re.search(pattern, text) is not None\<close>: the pattern matches at some position
  of the text.\<close>

definition has_match :: "pattern \<Rightarrow> string \<Rightarrow> bool" where
  "has_match pat s = list_ex (\<lambda>t. match_here pat t \<noteq> None) (suffixes s)"

text \<open>What a match is, apart from the order in which the matcher finds it: each atom
  takes a text of its class whose length is within its bounds.\<close>

fun fits :: "atom \<Rightarrow> string \<Rightarrow> bool" where
  "fits (Rep c lo hi) p =
     (lo \<le> length p \<and> (case hi of None \<Rightarrow> True | Some h \<Rightarrow> length p \<le> h) \<and> list_all c p)"

section \<open>Response Formatter\<close>

text \<open>Source: \<^verbatim>\<open>chat.py\<close>, \<^verbatim>\<open>format_response\<close>.\<close>

text \<open>\<^verbatim>\<open>text.strip()\<close>\<close>

definition strip :: "string \<Rightarrow> string" where
  "strip s = rev (dropWhile is_space (rev (dropWhile is_space s)))"

definition is_char :: "char \<Rightarrow> char \<Rightarrow> bool" where
  "is_char a c = (c = a)"

abbreviation newline :: char where
  "newline \<equiv> CHR ''\<newline>''"

text \<open>\<^verbatim>\<open>re.sub(r'\*+', '', text)\<close>\<close>

definition strip_stars :: "string \<Rightarrow> string" where
  "strip_stars = re_sub [(0, rx_plus (is_char CHR ''*''))] []"

text \<open>\<^verbatim>\<open>re.sub(r'[_~`]+', '', text)\<close>\<close>

definition strip_marks :: "string \<Rightarrow> string" where
  "strip_marks = re_sub [(0, rx_plus (\<lambda>c. c \<in> set ''_~`''))] []"

text \<open>\<^verbatim>\<open>re.sub(r'\s+', ' ', text)\<close>\<close>

definition collapse_space :: "string \<Rightarrow> string" where
  "collapse_space = re_sub [(0, rx_plus is_space)] [Lit '' '']"

text \<open>\<^verbatim>\<open>re.sub(r'\n([A-Z][A-Z\s:]+:)\n', r'\n\n\1\n', text)\<close>\<close>

definition heading_line_pat :: pattern where
  "heading_line_pat =
     [(0, rx_one (is_char newline)),
      (1, rx_one is_upper),
      (1, rx_plus (\<lambda>c. is_upper c \<or> is_space c \<or> c = CHR '':'')),
      (1, rx_one (is_char CHR '':'')),
      (0, rx_one (is_char newline))]"

definition heading_line :: "string \<Rightarrow> string" where
  "heading_line = re_sub heading_line_pat [Lit ''\<newline>\<newline>'', Ref 1, Lit ''\<newline>'']"

text \<open>\<^verbatim>\<open>re.sub(r'([A-Z][A-Z\s]+:)([^\n])', r'\1\n\2', text)\<close>\<close>

definition heading_pat :: pattern where
  "heading_pat =
     [(1, rx_one is_upper),
      (1, rx_plus (\<lambda>c. is_upper c \<or> is_space c)),
      (1, rx_one (is_char CHR '':''))]"

definition heading_split_pat :: pattern where
  "heading_split_pat = heading_pat @ [(2, rx_one (\<lambda>c. c \<noteq> newline))]"

definition heading_split :: "string \<Rightarrow> string" where
  "heading_split = re_sub heading_split_pat [Ref 1, Lit ''\<newline>'', Ref 2]"

text \<open>\<^verbatim>\<open>re.sub(r'\n(\d+\.)', r'\n\n\1', text)\<close>\<close>

definition numbered_item :: "string \<Rightarrow> string" where
  "numbered_item =
     re_sub [(0, rx_one (is_char newline)), (1, rx_plus is_digit), (1, rx_one (is_char CHR ''.''))]
       [Lit ''\<newline>\<newline>'', Ref 1]"

text \<open>\<^verbatim>\<open>re.sub(r'\n(-\s)', r'\n\n\1', text)\<close>\<close>

definition dash_item :: "string \<Rightarrow> string" where
  "dash_item =
     re_sub [(0, rx_one (is_char newline)), (1, rx_one (is_char CHR ''-'')), (1, rx_one is_space)]
       [Lit ''\<newline>\<newline>'', Ref 1]"

text \<open>\<^verbatim>\<open>re.sub(r'([.!?])\s*\n([A-Z])', r'\1\n\n\2', text)\<close>\<close>

definition sentence_break :: "string \<Rightarrow> string" where
  "sentence_break =
     re_sub [(1, rx_one (\<lambda>c. c \<in> set ''.!?'')), (0, rx_star is_space),
             (0, rx_one (is_char newline)), (2, rx_one is_upper)]
       [Ref 1, Lit ''\<newline>\<newline>'', Ref 2]"

text \<open>\<^verbatim>\<open>re.sub(r'\n{4,}', '\n\n\n', text)\<close>\<close>

definition collapse_newlines :: "string \<Rightarrow> string" where
  "collapse_newlines =
     re_sub [(0, rx_at_least 4 (is_char newline))] [Lit ''\<newline>\<newline>\<newline>'']"

text \<open>\<^verbatim>\<open>re.sub(r'[ \t]+', ' ', text)\<close>\<close>

definition collapse_blanks :: "string \<Rightarrow> string" where
  "collapse_blanks = re_sub [(0, rx_plus (\<lambda>c. c = CHR '' '' \<or> c = CHR 0x09))] [Lit '' '']"

definition fallback :: string where
  "fallback = ''I'm not sure how to answer that.''"

text \<open>The argument is \<open>None\<close> for Python's \<^verbatim>\<open>None\<close>; \<^verbatim>\<open>not text\<close> holds of it and of
  the empty string.\<close>

definition format_response :: "string option \<Rightarrow> string" where
  "format_response text =
     (case text of
        None \<Rightarrow> fallback
      | Some t \<Rightarrow>
          if t = [] then fallback
          else (strip \<circ> collapse_blanks \<circ> collapse_newlines \<circ> sentence_break \<circ> dash_item
                \<circ> numbered_item \<circ> heading_split \<circ> heading_line \<circ> collapse_space
                \<circ> strip_marks \<circ> strip_stars \<circ> strip) t)"

section \<open>Request handlers\<close>

text \<open>
  Source: \<^verbatim>\<open>chat.py\<close>, \<^verbatim>\<open>chat\<close>, \<^verbatim>\<open>handle_file_upload\<close>, \<^verbatim>\<open>process_image_file\<close>
  and \<^verbatim>\<open>process_text_file\<close>.  What the handlers take from outside is explicit: the
  request, the environment (the model handle and the library functions whose results the
  handlers only pass on) and the state they change (the files on disk and the calls made
  to the model).
\<close>

text \<open>A decoded JSON value, with Python's truth value and type name.  Numbers are the
  integers.\<close>

datatype pyval =
  PNone | PBool bool | PInt int | PStr string | PList "pyval list" | PDict "(string \<times> pyval) list"

fun truthy :: "pyval \<Rightarrow> bool" where
  "truthy PNone = False"
| "truthy (PBool b) = b"
| "truthy (PInt i) = (i \<noteq> 0)"
| "truthy (PStr s) = (s \<noteq> [])"
| "truthy (PList xs) = (xs \<noteq> [])"
| "truthy (PDict kvs) = (kvs \<noteq> [])"

fun type_name :: "pyval \<Rightarrow> string" where
  "type_name PNone = ''NoneType''"
| "type_name (PBool b) = ''bool''"
| "type_name (PInt i) = ''int''"
| "type_name (PStr s) = ''str''"
| "type_name (PList xs) = ''list''"
| "type_name (PDict kvs) = ''dict''"

text \<open>The JSON body of a chat request: an object whose \<^verbatim>\<open>message\<close> and
  \<^verbatim>\<open>conversation_history\<close> are any JSON values; a field is \<open>None\<close> when its key is
  missing.\<close>

record chat_data =
  message :: "pyval option"
  conversation_history :: "pyval option"

text \<open>An uploaded file (\<^verbatim>\<open>request.files['file']\<close>).\<close>

record upload =
  filename :: string
  mimetype :: string
  content :: string

text \<open>
  The request: \<open>file_field\<close> is \<^verbatim>\<open>request.files.get('file')\<close>, \<open>form\<close> is
  \<^verbatim>\<open>request.form\<close>, and \<open>json\<close> is what \<^verbatim>\<open>request.get_json()\<close> does: it raises
  (\<open>Inl\<close> of the text of the exception) or returns the decoded body, \<open>None\<close> for a
  JSON \<^verbatim>\<open>null\<close>.
\<close>

record request =
  file_field :: "upload option"
  form :: "string \<rightharpoonup> string"
  json :: "string + chat_data option"

text \<open>What is sent to the model: a prompt, or a prompt with an image (its mime type and
  its base64 data).\<close>

datatype payload = Text_prompt string | Image_prompt string string string

text \<open>What \<^verbatim>\<open>model.generate_content(...)\<close> followed by \<^verbatim>\<open>response.text\<close> does: it
  raises (the text of the exception) or gives the text, which may be empty.\<close>

datatype generation = Raises string | Text string

text \<open>
  The environment: the global \<^verbatim>\<open>model\<close> (\<open>None\<close> when it is not initialised),
  the result of \<^verbatim>\<open>secrets.token_hex(8)\<close>, \<^verbatim>\<open>json.loads\<close> on the history field
  (\<open>None\<close> when it raises, the decoded value otherwise, whatever its shape),
  \<^verbatim>\<open>base64.b64encode\<close>, the decoding of a file opened with
  \<^verbatim>\<open>encoding='utf-8'\<close> (\<open>None\<close> for a \<^verbatim>\<open>UnicodeDecodeError\<close>), the paths at which
  \<^verbatim>\<open>file.save\<close> succeeds, the text of the exception on opening a path that does
  not exist, Python's \<^verbatim>\<open>str\<close> on a value that is not a string, and the text of the
  exception that slicing a dict raises (it differs between Python versions).
\<close>

record env =
  model :: "(payload \<Rightarrow> generation) option"
  token_hex :: string
  json_loads :: "string \<Rightarrow> pyval option"
  b64encode :: "string \<Rightarrow> string"
  decode_utf8 :: "string \<Rightarrow> string option"
  can_save :: "string \<Rightarrow> bool"
  open_error :: "string \<Rightarrow> string"
  py_str :: "pyval \<Rightarrow> string"
  dict_slice_error :: string

record world =
  fs :: "string \<rightharpoonup> string"
  calls :: "payload list"

datatype body =
  Error_body string
| Response_body string
| Upload_body (response: string) (file_url: string) (file_name: string) (file_type: string)

type_synonym http_response = "nat \<times> body"

definition SYSTEM_INSTRUCTION :: string where
  "SYSTEM_INSTRUCTION =
     ''You are a helpful, knowledgeable, and professional AI assistant. '' @
     ''Provide clear, accurate, and well-structured responses. '' @
     ''Use proper formatting with headings, lists, and examples when helpful. '' @
     ''Never use asterisks (*) for formatting. Use dashes (-) for bullet points. '' @
     ''Be comprehensive but concise, and always aim for clarity and helpfulness.''"

definition UPLOAD_FOLDER :: string where
  "UPLOAD_FOLDER = ''static/uploads''"

text \<open>\<^verbatim>\<open>os.path.join(a, b)\<close> on POSIX paths.\<close>

definition os_path_join :: "string \<Rightarrow> string \<Rightarrow> string" where
  "os_path_join a b =
     (if prefix ''/'' b then b
      else if a = [] \<or> suffix ''/'' a then a @ b
      else a @ ''/'' @ b)"

text \<open>A call of the model, recorded in the state.\<close>

definition generate_content ::
  "(payload \<Rightarrow> generation) \<Rightarrow> payload \<Rightarrow> world \<Rightarrow> generation \<times> world" where
  "generate_content m p w = (m p, w\<lparr>calls := calls w @ [p]\<rparr>)"

definition image_instructions :: string where
  "image_instructions =
     ''Please analyze this image and provide:\<newline>\<newline>'' @
     ''1. A brief overview of what you see\<newline>'' @
     ''2. Key details about the main subjects or objects\<newline>'' @
     ''3. Information about colors, composition, and setting\<newline>'' @
     ''4. Any text or important details you notice\<newline>'' @
     ''5. Notable features, patterns, or technical aspects\<newline>\<newline>'' @
     ''Please organize your response clearly.''"

definition process_image_file ::
  "env \<Rightarrow> string \<Rightarrow> string \<Rightarrow> string \<Rightarrow> string \<Rightarrow> world \<Rightarrow> string \<times> world" where
  "process_image_file e file_path mime_type msg context w =
     (case fs w file_path of
        None \<Rightarrow> (''Sorry, I couldn't process this image. Error: '' @ open_error e file_path, w)
      | Some image_data \<Rightarrow>
          let image_b64 = b64encode e image_data;
              prompt_text = SYSTEM_INSTRUCTION @ context @ ''\<newline>\<newline>''
                @ (if msg \<noteq> [] then msg else image_instructions)
          in case model e of
               None \<Rightarrow> (''AI model is not available.'', w)
             | Some m \<Rightarrow>
                 (case generate_content m (Image_prompt prompt_text mime_type image_b64) w of
                    (Raises err, w') \<Rightarrow>
                      (''Sorry, I couldn't process this image. Error: '' @ err, w')
                  | (Text t, w') \<Rightarrow>
                      (if t \<noteq> [] then format_response (Some t)
                       else ''I couldn't analyze this image.'', w')))"

definition file_instructions :: string where
  "file_instructions =
     ''Please help me understand this file by providing:\<newline>\<newline>'' @
     ''1. What type of file this is and its main purpose\<newline>'' @
     ''2. Key components, functions, or sections\<newline>'' @
     ''3. How it's structured and organized\<newline>'' @
     ''4. Any notable features or important aspects\<newline>'' @
     ''5. If it's code, any observations about quality or improvements\<newline>\<newline>'' @
     ''Please explain everything clearly.''"

definition process_text_file ::
  "env \<Rightarrow> string \<Rightarrow> string \<Rightarrow> string \<Rightarrow> string \<Rightarrow> world \<Rightarrow> string \<times> world" where
  "process_text_file e file_path name msg context w =
     (case fs w file_path of
        None \<Rightarrow> (''Sorry, I couldn't process this file. Error: '' @ open_error e file_path, w)
      | Some bytes \<Rightarrow>
          (case decode_utf8 e bytes of
             None \<Rightarrow>
               (''Sorry, I couldn't read this file. It might be in a format I don't support.'', w)
           | Some file_content \<Rightarrow>
               let prompt_text = SYSTEM_INSTRUCTION @ context @ ''\<newline>\<newline>''
                     @ ''I've uploaded a file called '' @ [CHR 0x27] @ name @ [CHR 0x27]
                     @ ''. Could you analyze it?\<newline>\<newline>''
                     @ ''Here's the content:\<newline>\<newline>```\<newline>'' @ file_content
                     @ ''\<newline>```\<newline>\<newline>''
                     @ (if msg \<noteq> [] then msg else file_instructions)
               in case model e of
                    None \<Rightarrow> (''AI model is not available.'', w)
                  | Some m \<Rightarrow>
                      (case generate_content m (Text_prompt prompt_text) w of
                         (Raises err, w') \<Rightarrow>
                           (''Sorry, I couldn't process this file. Error: '' @ err, w')
                       | (Text t, w') \<Rightarrow>
                           (if t \<noteq> [] then format_response (Some t)
                            else ''I couldn't analyze this file.'', w'))))"

text \<open>
  \<^verbatim>\<open>build_conversation_context\<close> as the handlers call it, on whatever value the request
  carries as its history.  A false value gives the empty string.  Otherwise the value is
  sliced with \<^verbatim>\<open>[-10:]\<close>, which raises on a number, on \<^verbatim>\<open>True\<close> and on a dict, and
  every element of the slice is read with \<^verbatim>\<open>msg.get\<close>, which raises on an element that
  is not a dict (the characters of a string among them).  \<open>Inl\<close> is the text of the
  exception.  On a list of objects with string values this is the function of the first
  section (lemma \<open>history_context_turns\<close>).
\<close>

definition no_get_error :: "pyval \<Rightarrow> string" where
  "no_get_error v =
     [CHR 0x27] @ type_name v @ [CHR 0x27] @ '' object has no attribute ''
       @ [CHR 0x27] @ ''get'' @ [CHR 0x27]"

definition not_subscriptable_error :: "pyval \<Rightarrow> string" where
  "not_subscriptable_error v =
     [CHR 0x27] @ type_name v @ [CHR 0x27] @ '' object is not subscriptable''"

definition history_turn_line :: "env \<Rightarrow> (string \<times> pyval) list \<Rightarrow> string" where
  "history_turn_line e kvs =
     (if map_of kvs ''role'' = Some (PStr ''user'') then ''User'' else ''Assistant'') @ '': ''
       @ (case map_of kvs ''content'' of
            None \<Rightarrow> ''''
          | Some (PStr s) \<Rightarrow> s
          | Some v \<Rightarrow> py_str e v)
       @ ''\<newline>''"

fun history_loop :: "env \<Rightarrow> string \<Rightarrow> pyval list \<Rightarrow> string + string" where
  "history_loop e context [] = Inr context"
| "history_loop e context (PDict kvs # ms) =
     history_loop e (context @ history_turn_line e kvs) ms"
| "history_loop e context (v # ms) = Inl (no_get_error v)"

definition history_context :: "env \<Rightarrow> pyval \<Rightarrow> string + string" where
  "history_context e history =
     (if \<not> truthy history then Inr ''''
      else case history of
             PList ms \<Rightarrow>
               (case history_loop e context_header (last_n 10 ms) of
                  Inl err \<Rightarrow> Inl err
                | Inr context \<Rightarrow> Inr (context @ ''\<newline>''))
           | PStr s \<Rightarrow> Inl (no_get_error (PStr s))
           | PDict kvs \<Rightarrow> Inl (dict_slice_error e)
           | v \<Rightarrow> Inl (not_subscriptable_error v))"

text \<open>The turn that a JSON object with string values stands for.\<close>

definition turn_of :: "(string \<times> pyval) list \<Rightarrow> msg" where
  "turn_of kvs = (\<lambda>k. case map_of kvs k of Some (PStr s) \<Rightarrow> Some s | _ \<Rightarrow> None)"

text \<open>The history of an upload request: the form field, \<^verbatim>\<open>'[]'\<close> when it is missing,
  decoded by \<^verbatim>\<open>json.loads\<close>; the empty list when that raises.\<close>

definition upload_history :: "env \<Rightarrow> (string \<rightharpoonup> string) \<Rightarrow> pyval" where
  "upload_history e frm =
     (case json_loads e (dict_get frm ''conversation_history'' ''[]'') of
        None \<Rightarrow> PList []
      | Some h \<Rightarrow> h)"

definition text_extensions :: "string list" where
  "text_extensions = [''.txt'', ''.py'', ''.js'', ''.html'', ''.css'', ''.json'', ''.xml'', ''.csv'']"

text \<open>\<^verbatim>\<open>s.endswith((e1, e2, ...))\<close>\<close>

definition endswith_any :: "string \<Rightarrow> string list \<Rightarrow> bool" where
  "endswith_any s es = list_ex (\<lambda>e. suffix e s) es"

text \<open>The \<^verbatim>\<open>if\<close>/\<^verbatim>\<open>elif\<close>/\<^verbatim>\<open>else\<close> of \<^verbatim>\<open>handle_file_upload\<close> that picks the
  answer by the type of the file.\<close>

definition file_answer ::
  "env \<Rightarrow> upload \<Rightarrow> string \<Rightarrow> string \<Rightarrow> string \<Rightarrow> world \<Rightarrow> string \<times> world" where
  "file_answer e f file_path msg context w =
     (if prefix ''image/'' (mimetype f)
      then process_image_file e file_path (mimetype f) msg context w
      else if prefix ''text/'' (mimetype f) \<or> endswith_any (filename f) text_extensions
      then process_text_file e file_path (filename f) msg context w
      else (''Sorry, I don't support files of type '' @ [CHR 0x27] @ mimetype f @ [CHR 0x27]
            @ ''. I can analyze images and text files.'', w))"

text \<open>
  \<^verbatim>\<open>handle_file_upload\<close> is called when the request has a file; \<open>f\<close> is that
  file.  A \<^verbatim>\<open>FileStorage\<close> is false when its file name is empty.  The handler
  returns a response, or raises (\<open>Inl\<close> of the text of the exception) when building the
  context raises, which is after the file has been saved.
\<close>

definition handle_file_upload ::
  "env \<Rightarrow> request \<Rightarrow> upload \<Rightarrow> world \<Rightarrow> (string + http_response) \<times> world" where
  "handle_file_upload e req f w =
     (let msg = dict_get (form req) ''message'' '''';
          history = upload_history e (form req)
      in if filename f = [] then (Inr (400, Error_body ''No file selected''), w)
         else
           let name = token_hex e @ ''_'' @ filename f;
               file_path = os_path_join UPLOAD_FOLDER name
           in if \<not> can_save e file_path then (Inr (500, Error_body ''Failed to save file''), w)
              else
                let w1 = w\<lparr>fs := (fs w)(file_path \<mapsto> content f)\<rparr>
                in case history_context e history of
                     Inl err \<Rightarrow> (Inl err, w1)
                   | Inr context \<Rightarrow>
                       let (answer, w2) = file_answer e f file_path msg context w1
                       in (Inr (200, Upload_body answer (''/static/uploads/'' @ name)
                                  (filename f) (mimetype f)),
                           w2))"

text \<open>The \<^verbatim>\<open>POST /chat\<close> handler.  An exception in its body, the upload handler
  included, gives the response 500 with the text of the exception.\<close>

definition internal_error :: "string \<Rightarrow> http_response" where
  "internal_error err = (500, Error_body (''An error occurred: '' @ err))"

definition chat :: "env \<Rightarrow> request \<Rightarrow> world \<Rightarrow> http_response \<times> world" where
  "chat e req w =
     (case file_field req of
        Some f \<Rightarrow>
          (case handle_file_upload e req f w of
             (Inl err, w') \<Rightarrow> (internal_error err, w')
           | (Inr r, w') \<Rightarrow> (r, w'))
      | None \<Rightarrow>
          (case json req of
             Inl err \<Rightarrow> (internal_error err, w)
           | Inr None \<Rightarrow> ((400, Error_body ''No message provided''), w)
           | Inr (Some data) \<Rightarrow>
               (case message data of
                  None \<Rightarrow> ((400, Error_body ''No message provided''), w)
                | Some v \<Rightarrow>
                    if \<not> truthy v then ((400, Error_body ''No message provided''), w)
                    else
                      let history =
                            (case conversation_history data of None \<Rightarrow> PList [] | Some h \<Rightarrow> h)
                      in case history_context e history of
                           Inl err \<Rightarrow> (internal_error err, w)
                         | Inr context \<Rightarrow>
                             (case v of
                                PStr msg \<Rightarrow>
                                  (let prompt_text = SYSTEM_INSTRUCTION @ context @ msg
                                         @ ''\<newline>\<newline>Assistant:''
                                   in case model e of
                                        None \<Rightarrow>
                                          ((200, Response_body ''AI model is not available.''), w)
                                      | Some m \<Rightarrow>
                                          (case generate_content m (Text_prompt prompt_text) w of
                                             (Raises err, w') \<Rightarrow> (internal_error err, w')
                                           | (Text t, w') \<Rightarrow>
                                               ((200, Response_body
                                                  (if t \<noteq> [] then format_response (Some t)
                                                   else ''I'm not sure how to respond to that.'')),
                                                w')))
                              | _ \<Rightarrow>
                                  (internal_error (''can only concatenate str (not '' @ [CHR 0x22]
                                     @ type_name v @ [CHR 0x22] @ '') to str''), w)))))"

section \<open>Auxiliary notions for the proofs\<close>

text \<open>The marker characters that the formatter deletes.\<close>

definition marker :: "char \<Rightarrow> bool" where
  "marker c = (c \<in> set ''*_~`'')"

text \<open>
  The pattern \<^verbatim>\<open>[A-Z][A-Z\s]+:\<close> as a scan of the text: \<open>heading_rest seen cs\<close>
  holds when \<open>cs\<close> goes on with capitals and white space up to a colon, with at least
  one such character unless \<open>seen\<close>; \<open>heading_in s\<close> holds when a capital of \<open>s\<close> is
  followed by such a text.  Lemma \<open>has_match_heading\<close> relates it to the matcher.
\<close>

fun heading_rest :: "bool \<Rightarrow> string \<Rightarrow> bool" where
  "heading_rest seen [] = False"
| "heading_rest seen (c # cs) =
     (if c = CHR '':'' then seen else (is_upper c \<or> is_space c) \<and> heading_rest True cs)"

fun heading_in :: "string \<Rightarrow> bool" where
  "heading_in [] = False"
| "heading_in (c # cs) = (is_upper c \<and> heading_rest False cs \<or> heading_in cs)"

text \<open>The pattern \<^verbatim>\<open>([A-Z][A-Z\s]+:)(\S)\<close>: a heading with a character other than white
  space right after its colon.\<close>

definition heading_glued_pat :: pattern where
  "heading_glued_pat = heading_pat @ [(2, rx_one (\<lambda>c. \<not> is_space c))]"

text \<open>\<open>nl_ins x y\<close>: the text \<open>y\<close> is \<open>x\<close> with a newline put between a colon and the
  blank after it, at some of the places where a colon is followed by a blank.\<close>

inductive nl_ins :: "string \<Rightarrow> string \<Rightarrow> bool" where
  Nil: "nl_ins [] []"
| Keep: "nl_ins x y \<Longrightarrow> nl_ins (c # x) (c # y)"
| Break: "nl_ins x y \<Longrightarrow> nl_ins (CHR '':'' # CHR '' '' # x) (CHR '':'' # newline # CHR '' '' # y)"

text \<open>No two characters of the class \<open>c\<close> are next to each other.\<close>

fun isolated :: "(char \<Rightarrow> bool) \<Rightarrow> string \<Rightarrow> bool" where
  "isolated c [] = True"
| "isolated c (x # xs) = ((c x \<longrightarrow> xs = [] \<or> \<not> c (hd xs)) \<and> isolated c xs)"

text \<open>An environment for examples: a model that always answers, and a \<^verbatim>\<open>json.loads\<close>
  that decodes the empty list and the number 5 and rejects everything else.\<close>

definition example_env :: env where
  "example_env = \<lparr>model = Some (\<lambda>p. Text ''Hi there!''), token_hex = ''0123456789abcdef'',
     json_loads = (\<lambda>s. if s = ''[]'' then Some (PList [])
                         else if s = ''5'' then Some (PInt 5) else None),
     b64encode = (\<lambda>b. b), decode_utf8 = Some, can_save = (\<lambda>p. True),
     open_error = (\<lambda>p. ''not found''), py_str = (\<lambda>v. ''None''),
     dict_slice_error = ''unhashable type''\<rparr>"

declare re_sub.simps [simp del]

section \<open>Properties of the Context Builder\<close>

lemma context_loop_concat:
  "context_loop acc ms = acc @ concat (map turn_line ms)"
  by (induction ms arbitrary: acc) simp_all

lemma last_n_append_exact: "length ys = n \<Longrightarrow> last_n n (xs @ ys) = ys"
  by (simp add: last_n_def)

lemma turn_line_text: "turn_line m = turn_text m @ ''\<newline>''"
  by (simp add: turn_line_def turn_text_def)

lemma turn_lines_join:
  "ms \<noteq> [] \<Longrightarrow>
   concat (map turn_line ms) = join_newline (map turn_text ms) @ ''\<newline>''"
proof (induction ms)
  case Nil
  then show ?case by simp
next
  case (Cons m ms)
  then show ?case
    by (cases ms) (simp_all add: turn_line_text)
qed

text \<open>
  C3, as the specification words it: for a non-empty history the output would be the
  header, the turns joined with newlines, and one trailing newline.  On a history of one
  user turn the code ends in two newlines, not one.
\<close>

theorem context_join_counterexample:
  "[[''role'' \<mapsto> ''user'', ''content'' \<mapsto> ''hi'']] \<noteq> [] \<and>
   build_conversation_context [[''role'' \<mapsto> ''user'', ''content'' \<mapsto> ''hi'']]
     = ''\<newline>\<newline>CONVERSATION CONTEXT:\<newline>User: hi\<newline>\<newline>'' \<and>
   spec_conversation_context [[''role'' \<mapsto> ''user'', ''content'' \<mapsto> ''hi'']]
     = ''\<newline>\<newline>CONVERSATION CONTEXT:\<newline>User: hi\<newline>'' \<and>
   build_conversation_context [[''role'' \<mapsto> ''user'', ''content'' \<mapsto> ''hi'']]
     \<noteq> spec_conversation_context [[''role'' \<mapsto> ''user'', ''content'' \<mapsto> ''hi'']]"
  by (simp add: build_conversation_context_def spec_conversation_context_def last_n_def
      context_header_def turn_line_def turn_text_def role_of_def dict_get_def)

text \<open>
  C3, amended: for a non-empty history the output is the header, then each of the last
  (up to) 10 turns rendered as \<^verbatim>\<open>"<Role>: <content>"\<close> and ended by a newline, then one
  more newline; that is, the turns joined with newlines and followed by two newlines.
  The role \<^verbatim>\<open>user\<close> gives \<^verbatim>\<open>User\<close>, any other or missing role \<^verbatim>\<open>Assistant\<close>, and a
  missing content the empty string.
\<close>

theorem context_rendering:
  "h \<noteq> [] \<Longrightarrow>
   build_conversation_context h
     = context_header @ join_newline (map turn_text (last_n 10 h)) @ ''\<newline>\<newline>'' \<and>
   length (last_n 10 h) = min 10 (length h) \<and>
   (\<forall>m. turn_text m = (if m ''role'' = Some ''user'' then ''User'' else ''Assistant'')
        @ '': '' @ (case m ''content'' of None \<Rightarrow> '''' | Some c \<Rightarrow> c))"
proof -
  assume ne: "h \<noteq> []"
  then have w: "last_n 10 h \<noteq> []"
    by (cases h) (simp_all add: last_n_def)
  have "concat (map turn_line (last_n 10 h))
          = join_newline (map turn_text (last_n 10 h)) @ ''\<newline>''"
    using w by (rule turn_lines_join)
  then have "build_conversation_context h
      = context_header @ join_newline (map turn_text (last_n 10 h)) @ ''\<newline>\<newline>''"
    using ne by (simp add: build_conversation_context_def context_loop_concat)
  moreover have "length (last_n 10 h) = min 10 (length h)"
    by (simp add: last_n_def)
  ultimately show ?thesis
    by (simp add: turn_text_def role_of_def dict_get_def)
qed

theorem context_rendering_witness:
  "build_conversation_context
     [[''role'' \<mapsto> ''user'', ''content'' \<mapsto> ''hi''], [''role'' \<mapsto> ''bot'']]
     = ''\<newline>\<newline>CONVERSATION CONTEXT:\<newline>User: hi\<newline>Assistant: \<newline>\<newline>''"
  using context_rendering
    [of "[[''role'' \<mapsto> ''user'', ''content'' \<mapsto> ''hi''], [''role'' \<mapsto> ''bot'']]"]
  by (simp add: last_n_def context_header_def turn_text_def role_of_def dict_get_def)

text \<open>
  C4: for a history longer than 10 turns, the output is the header, then one line for each
  of the last 10 turns and for no other turn, in the order the turns have in the history
  (the line at position \<open>i\<close> is that of the turn at position \<open>length h - 10 + i\<close>), then
  the closing newline.  The window has exactly 10 turns, and the turns before it do not
  reach the output: any other older turns give the same text.
\<close>

theorem context_window_last_10:
  "10 < length h \<Longrightarrow>
   build_conversation_context h
     = ''\<newline>\<newline>CONVERSATION CONTEXT:\<newline>''
       @ concat (map (\<lambda>i.
           (if (h ! (length h - 10 + i)) ''role'' = Some ''user'' then ''User'' else ''Assistant'')
           @ '': ''
           @ (case (h ! (length h - 10 + i)) ''content'' of None \<Rightarrow> '''' | Some c \<Rightarrow> c)
           @ ''\<newline>'') [0..<10])
       @ ''\<newline>'' \<and>
   length (drop (length h - 10) h) = 10 \<and>
   (\<forall>older. build_conversation_context (older @ drop (length h - 10) h)
      = build_conversation_context h)"
proof -
  assume len: "10 < length h"
  let ?win = "drop (length h - 10) h"
  have l10: "length ?win = 10"
    using len by simp
  have win: "last_n 10 h = ?win"
    by (simp add: last_n_def)
  have nth: "?win = map (\<lambda>i. h ! (length h - 10 + i)) [0..<10]"
    using len l10 by (intro nth_equalityI) simp_all
  have ne: "h \<noteq> []" "?win \<noteq> []"
    using len l10 by auto
  have out: "build_conversation_context h
      = context_header @ concat (map turn_line ?win) @ ''\<newline>''"
    using ne win by (simp add: build_conversation_context_def context_loop_concat)
  have "concat (map turn_line ?win)
      = concat (map (\<lambda>i. turn_line (h ! (length h - 10 + i))) [0..<10])"
    by (subst nth) (simp only: map_map comp_def)
  with out have 1: "build_conversation_context h
      = context_header
        @ concat (map (\<lambda>i. turn_line (h ! (length h - 10 + i))) [0..<10]) @ ''\<newline>''"
    by simp
  have 2: "build_conversation_context (older @ ?win) = build_conversation_context h" for older
    using ne l10 out
    by (simp add: build_conversation_context_def last_n_append_exact context_loop_concat)
  from 1 l10 2 show ?thesis
    by (simp add: context_header_def turn_line_def role_of_def dict_get_def)
qed

theorem context_window_last_10_witness:
  "build_conversation_context
     (map (\<lambda>c. [''role'' \<mapsto> ''user'', ''content'' \<mapsto> c])
        [''a'', ''b'', ''c'', ''d'', ''e'', ''f'', ''g'', ''h'', ''i'', ''j'', ''k''])
   = ''\<newline>\<newline>CONVERSATION CONTEXT:\<newline>User: b\<newline>User: c\<newline>User: d\<newline>User: e\<newline>User: f\<newline>User: g\<newline>User: h\<newline>User: i\<newline>User: j\<newline>User: k\<newline>\<newline>''"
  using context_window_last_10
    [of "map (\<lambda>c. [''role'' \<mapsto> ''user'', ''content'' \<mapsto> c])
        [''a'', ''b'', ''c'', ''d'', ''e'', ''f'', ''g'', ''h'', ''i'', ''j'', ''k'']"]
  by (simp add: upt_rec [of _ 10] upt_rec [of _ "numeral _"])

section \<open>Properties of the Response Formatter\<close>

lemmas fmt_defs = format_response_def strip_def collapse_blanks_def collapse_newlines_def
  sentence_break_def dash_item_def numbered_item_def heading_split_def heading_split_pat_def
  heading_pat_def
  heading_line_def heading_line_pat_def collapse_space_def strip_marks_def strip_stars_def
  fallback_def rx_one_def rx_plus_def rx_star_def rx_at_least_def is_char_def is_space_def
  is_upper_def is_digit_def first_down.simps re_sub.simps

subsection \<open>The matcher\<close>

lemma first_down_hit: "lo \<le> k \<Longrightarrow> f k = Some r \<Longrightarrow> first_down lo k f = Some r"
  by (subst first_down.simps) simp

lemma first_down_low: "k < lo \<Longrightarrow> first_down lo k f = None"
  by (subst first_down.simps) simp

lemma match_single:
  "match_here [(g, Rep c lo None)] s =
     (if lo \<le> length (takeWhile c s) then Some ([takeWhile c s], dropWhile c s) else None)"
  by (simp add: first_down_hit first_down_low takeWhile_eq_take [symmetric]
      dropWhile_eq_drop [symmetric])

lemma match_nonempty_Nil: "0 < least (snd a) \<Longrightarrow> match_here (a # as) [] = None"
  by (cases a, cases "snd a", cases "case snd a of Rep c lo hi \<Rightarrow> hi")
     (auto simp: first_down_low)

lemma first_down_SomeD:
  "first_down lo k f = Some r \<Longrightarrow> \<exists>j. lo \<le> j \<and> j \<le> k \<and> f j = Some r"
proof (induction k)
  case 0
  then show ?case
    by (subst (asm) first_down.simps) (auto split: if_splits option.splits)
next
  case (Suc k)
  from Suc.prems have lo: "lo \<le> Suc k"
    and alt: "f (Suc k) = Some r \<or> first_down lo k f = Some r"
    by (subst (asm) first_down.simps, auto split: if_splits option.splits)+
  from alt show ?case
  proof
    assume "f (Suc k) = Some r"
    with lo show ?thesis by blast
  next
    assume "first_down lo k f = Some r"
    then obtain j where "lo \<le> j" "j \<le> k" "f j = Some r"
      using Suc.IH by blast
    then show ?thesis using le_SucI by blast
  qed
qed

lemma first_down_complete:
  "lo \<le> j \<Longrightarrow> j \<le> k \<Longrightarrow> f j \<noteq> None \<Longrightarrow> first_down lo k f \<noteq> None"
proof (induction k)
  case 0
  then show ?case by (subst first_down.simps) auto
next
  case (Suc k)
  show ?case
  proof (cases "j = Suc k")
    case True
    with Suc.prems show ?thesis by (subst first_down.simps) auto
  next
    case False
    with Suc.prems have "j \<le> k" by simp
    with Suc have "first_down lo k f \<noteq> None" by simp
    with Suc.prems show ?thesis by (subst first_down.simps) (auto split: option.splits)
  qed
qed

lemma most_le: "most a s \<le> length (takeWhile (case a of Rep c lo hi \<Rightarrow> c) s)"
  by (cases a, cases "case a of Rep c lo hi \<Rightarrow> hi") auto

lemma take_fits:
  "least a \<le> j \<Longrightarrow> j \<le> most a s \<Longrightarrow> fits a (take j s)"
proof (cases a)
  case (Rep c lo hi)
  assume j: "least a \<le> j" "j \<le> most a s"
  then have jt: "j \<le> length (takeWhile c s)"
    using Rep by (cases hi) auto
  then have "take j s = take j (takeWhile c s)"
    by (metis append_eq_conv_conj takeWhile_dropWhile_id take_append take_all_iff diff_is_0_eq' take0 append_Nil2 length_take min.absorb2)
  then have "\<forall>x\<in>set (take j s). c x"
    by (metis in_set_takeD set_takeWhileD)
  moreover have "length (take j s) = j"
    using jt by (metis length_take min.absorb2 length_takeWhile_le le_trans)
  ultimately show ?thesis
    using j Rep by (cases hi) (auto simp: list_all_iff)
qed

lemma match_sound:
  "match_here pat s = Some (ps, r) \<Longrightarrow>
   list_all2 (\<lambda>a p. fits (snd a) p) pat ps \<and> s = concat ps @ r"
proof (induction pat arbitrary: s ps r)
  case Nil
  then show ?case by simp
next
  case (Cons a as)
  from Cons.prems obtain j where j: "least (snd a) \<le> j" "j \<le> most (snd a) s"
    and f: "(case match_here as (drop j s) of None \<Rightarrow> None
             | Some (ps', r') \<Rightarrow> Some (take j s # ps', r')) = Some (ps, r)"
    by (auto dest!: first_down_SomeD)
  from f obtain ps' where m: "match_here as (drop j s) = Some (ps', r)"
    and ps: "ps = take j s # ps'"
    by (auto split: option.splits)
  from Cons.IH [OF m] have "list_all2 (\<lambda>a p. fits (snd a) p) as ps'"
    and "drop j s = concat ps' @ r" by auto
  moreover from j have "fits (snd a) (take j s)" by (rule take_fits)
  ultimately show ?case
    using ps by (simp, metis append_take_drop_id)
qed

lemma fits_le_most:
  "fits a p \<Longrightarrow> least a \<le> length p \<and> length p \<le> most a (p @ t)"
proof (cases a)
  case (Rep c lo hi)
  assume "fits a p"
  with Rep have 1: "lo \<le> length p" and 2: "\<forall>x\<in>set p. c x"
    and 3: "case hi of None \<Rightarrow> True | Some h \<Rightarrow> length p \<le> h"
    by (auto simp: list_all_iff)
  from 2 have "takeWhile c (p @ t) = p @ takeWhile c t"
    by (simp add: takeWhile_append2)
  then have "length p \<le> length (takeWhile c (p @ t))" by simp
  with 1 3 Rep show ?thesis by (cases hi) auto
qed

lemma match_complete:
  "list_all2 (\<lambda>a p. fits (snd a) p) pat ps \<Longrightarrow> match_here pat (concat ps @ r) \<noteq> None"
proof (induction pat arbitrary: ps)
  case Nil
  then show ?case by simp
next
  case (Cons a as)
  then obtain p ps' where ps: "ps = p # ps'" and fit: "fits (snd a) p"
    and rest: "list_all2 (\<lambda>a p. fits (snd a) p) as ps'"
    by (auto simp: list_all2_Cons1)
  from Cons.IH [OF rest] have m: "match_here as (concat ps' @ r) \<noteq> None" .
  from fit have b: "least (snd a) \<le> length p" "length p \<le> most (snd a) (p @ concat ps' @ r)"
    using fits_le_most by blast+
  have "(case match_here as (drop (length p) (p @ concat ps' @ r)) of None \<Rightarrow> None
         | Some (ps'', r') \<Rightarrow> Some (take (length p) (p @ concat ps' @ r) # ps'', r')) \<noteq> None"
    using m by (auto split: option.splits)
  with b show ?case
    unfolding ps by (simp add: first_down_complete)
qed

lemma in_suffixes_match:
  "has_match pat s \<longleftrightarrow> (\<exists>u t. s = u @ t \<and> match_here pat t \<noteq> None)"
proof -
  have "has_match pat s \<longleftrightarrow> (\<exists>t. suffix t s \<and> match_here pat t \<noteq> None)"
    unfolding has_match_def list_ex_iff Bex_def in_set_suffixes ..
  then show ?thesis
    unfolding suffix_def by blast
qed

lemma no_match_here: "\<not> has_match pat s \<Longrightarrow> match_here pat s = None"
  using in_suffixes_match [of pat s] by (metis append_Nil)

lemma no_match_tail: "\<not> has_match pat (u @ t) \<Longrightarrow> \<not> has_match pat t"
  unfolding in_suffixes_match by (metis append.assoc)

lemma re_sub_no_match:
  "\<not> has_match pat s \<Longrightarrow> re_sub pat repl s = s"
proof (induction s)
  case Nil
  then show ?case
    by (simp add: no_match_here re_sub.simps)
next
  case (Cons c cs)
  from Cons.prems have "match_here pat (c # cs) = None"
    by (rule no_match_here)
  moreover from Cons.prems have "\<not> has_match pat cs"
    using no_match_tail [of pat "[c]" cs] by simp
  ultimately show ?case
    using Cons.IH by (simp add: re_sub.simps)
qed

lemma match_needs_char:
  assumes "match_here pat t = Some (ps, r)" and "(g, Rep c lo hi) \<in> set pat" and "0 < lo"
  shows "\<exists>x\<in>set t. c x"
proof -
  from assms(1) have l: "list_all2 (\<lambda>a p. fits (snd a) p) pat ps" and t: "t = concat ps @ r"
    using match_sound by blast+
  from assms(2) obtain i where i: "i < length pat" "pat ! i = (g, Rep c lo hi)"
    by (auto simp: in_set_conv_nth)
  with l have "fits (Rep c lo hi) (ps ! i)" and ips: "i < length ps"
    by (auto simp: list_all2_conv_all_nth)
  with assms(3) have "ps ! i \<noteq> []" "\<forall>x\<in>set (ps ! i). c x"
    by (auto simp: list_all_iff)
  then obtain x where "x \<in> set (ps ! i)" "c x"
    by (cases "ps ! i") auto
  moreover have "set (ps ! i) \<subseteq> set t"
    using ips t by (auto simp: in_set_conv_nth) (metis nth_mem)
  ultimately show ?thesis by blast
qed

lemma has_match_needs_char:
  "has_match pat s \<Longrightarrow> (g, Rep c lo hi) \<in> set pat \<Longrightarrow> 0 < lo \<Longrightarrow> \<exists>x\<in>set s. c x"
proof -
  assume "has_match pat s" and a: "(g, Rep c lo hi) \<in> set pat" "0 < lo"
  then obtain u t ps r where s: "s = u @ t" and "match_here pat t = Some (ps, r)"
    unfolding in_suffixes_match by auto
  with a have "\<exists>x\<in>set t. c x"
    using match_needs_char by blast
  with s show ?thesis by auto
qed

subsection \<open>Patterns of one character class\<close>

lemma re_sub_single_Nil: "0 < lo \<Longrightarrow> re_sub [(g, Rep c lo None)] repl [] = []"
  by (simp add: re_sub.simps match_single del: match_here.simps)

lemma re_sub_single_Cons:
  "0 < lo \<Longrightarrow>
   re_sub [(g, Rep c lo None)] repl (x # xs) =
     (if lo \<le> length (takeWhile c (x # xs))
      then expand repl [(g, Rep c lo None)] [takeWhile c (x # xs)]
           @ re_sub [(g, Rep c lo None)] repl (dropWhile c (x # xs))
      else x # re_sub [(g, Rep c lo None)] repl xs)"
proof -
  assume lo: "0 < lo"
  have "length (dropWhile c (x # xs)) < Suc (length xs)" if "lo \<le> length (takeWhile c (x # xs))"
  proof -
    from that lo have "c x" by (cases "c x") auto
    then show ?thesis by (simp add: length_dropWhile_le less_Suc_eq_le)
  qed
  then show ?thesis
    by (simp add: re_sub.simps match_single del: match_here.simps)
qed

subsection \<open>The collapse of newlines\<close>

lemma collapse_newlines_Nil: "collapse_newlines [] = []"
  by (simp add: collapse_newlines_def rx_at_least_def re_sub_single_Nil)

lemma collapse_newlines_Cons:
  "collapse_newlines (x # xs) =
     (if 4 \<le> length (takeWhile (is_char newline) (x # xs))
      then ''\<newline>\<newline>\<newline>'' @ collapse_newlines (dropWhile (is_char newline) (x # xs))
      else x # collapse_newlines xs)"
  by (simp add: collapse_newlines_def rx_at_least_def re_sub_single_Cons)

lemma takeWhile_run:
  "v = [] \<or> \<not> P (hd v) \<Longrightarrow> \<forall>x\<in>set r. P x \<Longrightarrow> takeWhile P (r @ v) = r"
  by (cases v) (simp_all add: takeWhile_append2)

lemma dropWhile_run:
  "v = [] \<or> \<not> P (hd v) \<Longrightarrow> \<forall>x\<in>set r. P x \<Longrightarrow> dropWhile P (r @ v) = v"
  by (cases v) (simp_all add: dropWhile_append2)

lemma collapse_newlines_run:
  assumes v: "v = [] \<or> hd v \<noteq> newline"
  shows "collapse_newlines (replicate n newline @ v) =
     (if 4 \<le> n then ''\<newline>\<newline>\<newline>'' else replicate n newline) @ collapse_newlines v"
proof -
  have v': "v = [] \<or> \<not> is_char newline (hd v)"
    using v by (simp add: is_char_def)
  have tk: "takeWhile (is_char newline) (replicate k newline @ v) = replicate k newline" for k
    by (rule takeWhile_run [where P = "is_char newline", OF v']) (simp add: is_char_def)
  have dr: "dropWhile (is_char newline) (replicate k newline @ v) = v" for k
    by (rule dropWhile_run [where P = "is_char newline", OF v']) (simp add: is_char_def)
  show ?thesis
  proof (cases "4 \<le> n")
    case True
    then obtain m where n: "n = Suc m" by (cases n) auto
    have "collapse_newlines (newline # replicate m newline @ v)
        = ''\<newline>\<newline>\<newline>'' @ collapse_newlines v"
      using True tk [of n] dr [of n] unfolding n
      by (simp only: collapse_newlines_Cons replicate_Suc append_Cons) simp
    with True show ?thesis by (simp add: n)
  next
    case False
    have "k < 4 \<Longrightarrow> collapse_newlines (replicate k newline @ v)
        = replicate k newline @ collapse_newlines v" for k
    proof (induction k)
      case 0
      then show ?case by simp
    next
      case (Suc k)
      have "collapse_newlines (newline # replicate k newline @ v)
          = newline # collapse_newlines (replicate k newline @ v)"
        using Suc.prems tk [of "Suc k"]
        by (simp only: collapse_newlines_Cons replicate_Suc append_Cons) simp
      with Suc show ?case by simp
    qed
    with False show ?thesis by simp
  qed
qed

lemma collapse_newlines_append:
  "u = [] \<or> last u \<noteq> newline \<Longrightarrow>
   collapse_newlines (u @ w) = collapse_newlines u @ collapse_newlines w"
proof (induction u rule: length_induct)
  case (1 u)
  show ?case
  proof (cases u)
    case Nil
    then show ?thesis by (simp add: collapse_newlines_Nil)
  next
    case (Cons x xs)
    with "1.prems" have lst: "\<not> is_char newline (last u)" and mem: "last u \<in> set u"
      by (auto simp: is_char_def)
    then have ex: "\<exists>y\<in>set u. \<not> is_char newline y" by blast
    then have tk: "takeWhile (is_char newline) (u @ w) = takeWhile (is_char newline) u"
      and dr: "dropWhile (is_char newline) (u @ w) = dropWhile (is_char newline) u @ w"
      by (auto simp: takeWhile_append1 dropWhile_append1)
    let ?d = "dropWhile (is_char newline) u"
    have dne: "?d \<noteq> []" using ex by (simp add: dropWhile_eq_Nil_conv)
    then have dlast: "last ?d = last u"
      by (metis append_Nil2 last_appendR takeWhile_dropWhile_id)
    show ?thesis
    proof (cases "4 \<le> length (takeWhile (is_char newline) u)")
      case True
      then have "is_char newline x" using Cons by (cases "is_char newline x") auto
      then have "length ?d < length u"
        using Cons by (simp add: length_dropWhile_le less_Suc_eq_le)
      moreover have "last ?d \<noteq> newline"
        using dlast "1.prems" Cons by simp
      ultimately
      have "collapse_newlines (?d @ w) = collapse_newlines ?d @ collapse_newlines w"
        using "1.IH" by blast
      with True tk dr show ?thesis
        unfolding Cons by (simp only: collapse_newlines_Cons append_Cons) simp
    next
      case False
      have "xs = [] \<or> last xs \<noteq> newline"
        using "1.prems" Cons by (cases xs) auto
      with "1.IH" Cons
      have "collapse_newlines (xs @ w) = collapse_newlines xs @ collapse_newlines w"
        by (auto simp: collapse_newlines_Nil)
      with False tk show ?thesis
        unfolding Cons by (simp only: collapse_newlines_Cons append_Cons) simp
    qed
  qed
qed

text \<open>
  C2, amended: the rule replaces every maximal run of 4 or more newlines by exactly 3
  newlines (two blank lines) and leaves a shorter run as it is; the text around the run is
  rewritten on its own.
\<close>

theorem collapse_newlines_to_three:
  "u = [] \<or> last u \<noteq> newline \<Longrightarrow> v = [] \<or> hd v \<noteq> newline \<Longrightarrow>
   collapse_newlines (u @ replicate n newline @ v) =
     collapse_newlines u @ (if 4 \<le> n then ''\<newline>\<newline>\<newline>'' else replicate n newline)
       @ collapse_newlines v"
  by (simp only: collapse_newlines_append collapse_newlines_run)

theorem collapse_newlines_to_three_witness:
  "collapse_newlines (''a'' @ replicate 5 newline @ ''b'') = ''a\<newline>\<newline>\<newline>b'' \<and>
   collapse_newlines (''a'' @ replicate 2 newline @ ''b'') = ''a\<newline>\<newline>b''"
  using collapse_newlines_to_three [of "''a''" "''b''" 5]
    collapse_newlines_to_three [of "''a''" "''b''" 2]
  by (simp add: collapse_newlines_Cons collapse_newlines_Nil is_char_def eval_nat_numeral)

text \<open>
  C2, as the specification words it: a run of 4 newlines would become 2 newlines.  The
  rule leaves 3.
\<close>

theorem collapse_newlines_counterexample:
  "collapse_newlines ''a\<newline>\<newline>\<newline>\<newline>b'' = ''a\<newline>\<newline>\<newline>b'' \<and>
   collapse_newlines ''a\<newline>\<newline>\<newline>\<newline>b'' \<noteq> ''a\<newline>\<newline>b''"
  by (simp add: collapse_newlines_def rx_at_least_def is_char_def first_down.simps re_sub.simps)


subsection \<open>Headings and newlines\<close>

lemma colon_class [simp]: "\<not> is_upper CHR '':''" "\<not> is_space CHR '':''"
  by (simp_all add: is_upper_def is_space_def)

lemma blank_class [simp]: "is_space CHR '' ''" "\<not> is_upper CHR '' ''" "is_space newline"
  by (simp_all add: is_upper_def is_space_def)

lemma heading_rest_iff:
  "heading_rest seen cs \<longleftrightarrow>
     (\<exists>m r. cs = m @ CHR '':'' # r \<and> (\<forall>c\<in>set m. is_upper c \<or> is_space c) \<and> (seen \<or> m \<noteq> []))"
proof (induction cs arbitrary: seen)
  case Nil
  then show ?case by simp
next
  case (Cons c cs)
  show ?case
  proof (cases "c = CHR '':''")
    case True
    have "(\<exists>m r. c # cs = m @ CHR '':'' # r \<and> (\<forall>c\<in>set m. is_upper c \<or> is_space c)
             \<and> (seen \<or> m \<noteq> [])) \<longleftrightarrow> seen"
    proof
      assume "\<exists>m r. c # cs = m @ CHR '':'' # r \<and> (\<forall>c\<in>set m. is_upper c \<or> is_space c)
             \<and> (seen \<or> m \<noteq> [])"
      then obtain m r where e: "c # cs = m @ CHR '':'' # r"
        and ok: "\<forall>c\<in>set m. is_upper c \<or> is_space c" and s: "seen \<or> m \<noteq> []" by blast
      have "m = []"
      proof (cases m)
        case (Cons x xs)
        with e True ok show ?thesis by auto
      qed simp
      with s show seen by simp
    next
      assume seen
      with True have "c # cs = [] @ CHR '':'' # cs \<and> (\<forall>c\<in>set []. is_upper c \<or> is_space c)
          \<and> (seen \<or> [] \<noteq> ([]::string))" by simp
      then show "\<exists>m r. c # cs = m @ CHR '':'' # r \<and> (\<forall>c\<in>set m. is_upper c \<or> is_space c)
             \<and> (seen \<or> m \<noteq> [])" by blast
    qed
    with True show ?thesis by simp
  next
    case False
    have "(\<exists>m r. c # cs = m @ CHR '':'' # r \<and> (\<forall>c\<in>set m. is_upper c \<or> is_space c)
             \<and> (seen \<or> m \<noteq> [])) \<longleftrightarrow>
          ((is_upper c \<or> is_space c) \<and>
           (\<exists>m r. cs = m @ CHR '':'' # r \<and> (\<forall>c\<in>set m. is_upper c \<or> is_space c)))"
      (is "?L \<longleftrightarrow> ?R")
    proof
      assume ?L
      then obtain m r where e: "c # cs = m @ CHR '':'' # r"
        and ok: "\<forall>c\<in>set m. is_upper c \<or> is_space c" by blast
      from e False obtain m' where "m = c # m'" "cs = m' @ CHR '':'' # r"
        by (cases m) auto
      with ok show ?R by auto
    next
      assume ?R
      then obtain m r where "cs = m @ CHR '':'' # r" "\<forall>c\<in>set m. is_upper c \<or> is_space c"
        and "is_upper c \<or> is_space c" by blast
      then have "c # cs = (c # m) @ CHR '':'' # r \<and> (\<forall>x\<in>set (c # m). is_upper x \<or> is_space x)
          \<and> (seen \<or> c # m \<noteq> [])" by simp
      then show ?L by blast
    qed
    with False Cons.IH [of True] show ?thesis by simp
  qed
qed

lemma heading_pat_fits:
  "list_all2 (\<lambda>a p. fits (snd a) p) heading_pat ps \<longleftrightarrow>
     (\<exists>a m. ps = [[a], m, '':''] \<and> is_upper a \<and> m \<noteq> [] \<and> (\<forall>c\<in>set m. is_upper c \<or> is_space c))"
  (is "?L \<longleftrightarrow> ?R")
proof
  assume ?L
  then obtain p1 p2 p3 where ps: "ps = [p1, p2, p3]"
    and 1: "fits (rx_one is_upper) p1"
    and 2: "fits (rx_plus (\<lambda>c. is_upper c \<or> is_space c)) p2"
    and 3: "fits (rx_one (is_char CHR '':'')) p3"
    by (auto simp: heading_pat_def list_all2_Cons1)
  from 1 obtain a where "p1 = [a]" "is_upper a"
    by (cases p1) (auto simp: rx_one_def)
  moreover from 3 have "p3 = '':''"
    by (cases p3) (auto simp: rx_one_def is_char_def)
  moreover from 2 have "p2 \<noteq> []" "\<forall>c\<in>set p2. is_upper c \<or> is_space c"
    by (auto simp: rx_plus_def list_all_iff)
  ultimately show ?R using ps by simp
next
  assume ?R
  then show ?L
    by (auto simp: heading_pat_def rx_one_def rx_plus_def is_char_def list_all_iff Suc_le_eq)
qed

lemma heading_match_iff:
  "match_here heading_pat t \<noteq> None \<longleftrightarrow> (\<exists>a cs. t = a # cs \<and> is_upper a \<and> heading_rest False cs)"
  (is "?L \<longleftrightarrow> ?R")
proof
  assume ?L
  then obtain ps r where "match_here heading_pat t = Some (ps, r)" by auto
  then have "list_all2 (\<lambda>a p. fits (snd a) p) heading_pat ps" and t: "t = concat ps @ r"
    using match_sound by blast+
  then obtain a m where "ps = [[a], m, '':'']" "is_upper a" "m \<noteq> []"
    "\<forall>c\<in>set m. is_upper c \<or> is_space c"
    unfolding heading_pat_fits by blast
  with t have "t = a # m @ CHR '':'' # r \<and> is_upper a \<and> heading_rest False (m @ CHR '':'' # r)"
    unfolding heading_rest_iff by auto
  then show ?R by blast
next
  assume ?R
  then obtain a m r where t: "t = a # m @ CHR '':'' # r" and "is_upper a" "m \<noteq> []"
    "\<forall>c\<in>set m. is_upper c \<or> is_space c"
    unfolding heading_rest_iff by auto
  then have "list_all2 (\<lambda>a p. fits (snd a) p) heading_pat [[a], m, '':'']"
    unfolding heading_pat_fits by blast
  from match_complete [OF this, of r] t show ?L by simp
qed

lemma has_match_Nil: "has_match pat [] \<longleftrightarrow> match_here pat [] \<noteq> None"
  by (simp add: has_match_def)

lemma has_match_Cons:
  "has_match pat (c # cs) \<longleftrightarrow> match_here pat (c # cs) \<noteq> None \<or> has_match pat cs"
  by (auto simp: has_match_def)

lemma has_match_heading: "has_match heading_pat s \<longleftrightarrow> heading_in s"
proof (induction s)
  case Nil
  show ?case using heading_match_iff [of "[]"] by (simp add: has_match_Nil)
next
  case (Cons c cs)
  show ?case using heading_match_iff [of "c # cs"] Cons by (simp add: has_match_Cons)
qed

lemma match_prefix_pattern:
  "match_here (p1 @ p2) t \<noteq> None \<Longrightarrow> match_here p1 t \<noteq> None"
proof -
  assume "match_here (p1 @ p2) t \<noteq> None"
  then obtain ps r where "match_here (p1 @ p2) t = Some (ps, r)" by auto
  then have l: "list_all2 (\<lambda>a p. fits (snd a) p) (p1 @ p2) ps" and t: "t = concat ps @ r"
    using match_sound by blast+
  from l obtain ps1 ps2 where "ps = ps1 @ ps2" "list_all2 (\<lambda>a p. fits (snd a) p) p1 ps1"
    by (auto simp: list_all2_append1)
  with t match_complete [of p1 ps1 "concat ps2 @ r"] show ?thesis by simp
qed

lemma has_match_prefix_pattern: "has_match (p1 @ p2) s \<Longrightarrow> has_match p1 s"
  unfolding in_suffixes_match using match_prefix_pattern by blast

lemma has_match_infix: "has_match pat s \<Longrightarrow> has_match pat (u @ s @ w)"
proof -
  assume "has_match pat s"
  then obtain v t ps r where s: "s = v @ t" and "match_here pat t = Some (ps, r)"
    unfolding in_suffixes_match by auto
  then have "list_all2 (\<lambda>a p. fits (snd a) p) pat ps" and t: "t = concat ps @ r"
    using match_sound by blast+
  then have "match_here pat (concat ps @ r @ w) \<noteq> None"
    using match_complete by blast
  moreover have "u @ s @ w = (u @ v) @ concat ps @ r @ w"
    using s t by simp
  ultimately show ?thesis
    unfolding in_suffixes_match by blast
qed

lemma filter_dropWhile_not: "filter (\<lambda>x. \<not> c x) (dropWhile c s) = filter (\<lambda>x. \<not> c x) s"
  by (induction s) simp_all

lemma re_sub_delete:
  "re_sub [(g, rx_plus c)] [] s = filter (\<lambda>x. \<not> c x) s"
proof (induction s rule: length_induct)
  case (1 s)
  show ?case
  proof (cases s)
    case Nil
    then show ?thesis by (simp add: rx_plus_def re_sub_single_Nil)
  next
    case (Cons x xs)
    show ?thesis
    proof (cases "c x")
      case True
      then have "length (dropWhile c (x # xs)) < length s"
        using Cons by (simp add: length_dropWhile_le less_Suc_eq_le)
      with "1.IH" have "re_sub [(g, rx_plus c)] [] (dropWhile c (x # xs))
          = filter (\<lambda>x. \<not> c x) (dropWhile c (x # xs))" by blast
      also have "\<dots> = filter (\<lambda>x. \<not> c x) (x # xs)" by (rule filter_dropWhile_not)
      finally show ?thesis
        using True Cons by (simp add: rx_plus_def re_sub_single_Cons)
    next
      case False
      with "1.IH" Cons show ?thesis
        by (simp add: rx_plus_def re_sub_single_Cons)
    qed
  qed
qed

lemma re_sub_squeeze_Nil: "re_sub [(g, rx_plus c)] [Lit b] [] = []"
  by (simp add: rx_plus_def re_sub_single_Nil)

lemma re_sub_squeeze_Cons:
  "re_sub [(g, rx_plus c)] [Lit b] (x # xs) =
     (if c x then b @ re_sub [(g, rx_plus c)] [Lit b] (dropWhile c xs)
      else x # re_sub [(g, rx_plus c)] [Lit b] xs)"
  by (simp add: rx_plus_def re_sub_single_Cons)

lemma squeeze_induct [case_names Nil Skip Keep]:
  assumes "P []"
    and "\<And>x xs. c x \<Longrightarrow> P (dropWhile c xs) \<Longrightarrow> P (x # xs)"
    and "\<And>x xs. \<not> c x \<Longrightarrow> P xs \<Longrightarrow> P (x # xs)"
  shows "P s"
proof (induction s rule: length_induct)
  case (1 s)
  show ?case
  proof (cases s)
    case Nil
    with assms(1) show ?thesis by simp
  next
    case (Cons x xs)
    have "length (dropWhile c xs) < length s"
      using Cons by (simp add: length_dropWhile_le less_Suc_eq_le)
    with "1.IH" have "P (dropWhile c xs)" by blast
    moreover from "1.IH" Cons have "P xs" by simp
    ultimately show ?thesis
      using assms(2,3) Cons by (cases "c x") auto
  qed
qed

lemma set_re_sub_squeeze:
  "set (re_sub [(g, rx_plus c)] [Lit b] s) \<subseteq> {x \<in> set s. \<not> c x} \<union> set b"
proof (induction s rule: squeeze_induct [where c = c])
  case Nil
  then show ?case by (simp add: re_sub_squeeze_Nil)
next
  case (Skip x xs)
  have "set (dropWhile c xs) \<subseteq> set xs" by (rule set_dropWhileD [THEN subsetI])
  with Skip show ?case by (auto simp: re_sub_squeeze_Cons)
next
  case (Keep x xs)
  then show ?case by (auto simp: re_sub_squeeze_Cons)
qed

lemma collapse_space_Nil: "collapse_space [] = []"
  by (simp add: collapse_space_def re_sub_squeeze_Nil)

lemma collapse_space_Cons:
  "collapse_space (x # xs) =
     (if is_space x then CHR '' '' # collapse_space (dropWhile is_space xs)
      else x # collapse_space xs)"
  by (simp add: collapse_space_def re_sub_squeeze_Cons)

lemma collapse_space_no_newline: "newline \<notin> set (collapse_space s)"
  using set_re_sub_squeeze [of 0 is_space "'' ''" s]
  by (auto simp: collapse_space_def)

lemma collapse_blanks_set: "set (collapse_blanks s) \<subseteq> set s \<union> {CHR '' ''}"
  using set_re_sub_squeeze [of 0 "\<lambda>c. c = CHR '' '' \<or> c = CHR 0x09" "'' ''" s]
  by (auto simp: collapse_blanks_def)

lemma strip_stars_filter: "strip_stars s = filter (\<lambda>c. c \<noteq> CHR ''*'') s"
  by (simp add: strip_stars_def re_sub_delete is_char_def)

lemma strip_marks_filter: "strip_marks s = filter (\<lambda>c. c \<notin> set ''_~`'') s"
  by (simp only: strip_marks_def re_sub_delete)

lemma strip_decomp: "\<exists>u w. s = u @ strip s @ w"
proof -
  let ?d = "dropWhile is_space s"
  have "rev ?d = takeWhile is_space (rev ?d) @ dropWhile is_space (rev ?d)" by simp
  then have "?d = rev (dropWhile is_space (rev ?d)) @ rev (takeWhile is_space (rev ?d))"
    by (metis rev_append rev_rev_ident)
  then have "s = takeWhile is_space s @ strip s @ rev (takeWhile is_space (rev ?d))"
    by (metis strip_def takeWhile_dropWhile_id)
  then show ?thesis by blast
qed

lemma set_strip: "set (strip s) \<subseteq> set s"
  using strip_decomp [of s] by (metis Un_iff set_append subsetI)

lemma heading_rest_skip:
  "heading_rest True (dropWhile is_space cs) \<Longrightarrow> heading_rest True cs"
proof (induction cs)
  case Nil
  then show ?case by simp
next
  case (Cons c cs)
  show ?case
  proof (cases "is_space c")
    case True
    with Cons have "heading_rest True cs" by simp
    moreover from True have "c \<noteq> CHR '':''" by auto
    ultimately show ?thesis using True by simp
  next
    case False
    with Cons.prems show ?thesis by simp
  qed
qed

lemma heading_in_suffix: "heading_in t \<Longrightarrow> heading_in (u @ t)"
  by (induction u) auto

lemma heading_in_skip: "heading_in (dropWhile P cs) \<Longrightarrow> heading_in cs"
  using heading_in_suffix [of "dropWhile P cs" "takeWhile P cs"] by simp

lemma heading_rest_collapse:
  "heading_rest seen (collapse_space t) \<Longrightarrow> heading_rest seen t"
proof (induction t arbitrary: seen rule: squeeze_induct [where c = is_space])
  case Nil
  then show ?case by (simp add: collapse_space_Nil)
next
  case (Skip x xs)
  from Skip.prems Skip.hyps have "heading_rest True (collapse_space (dropWhile is_space xs))"
    by (simp add: collapse_space_Cons)
  then have "heading_rest True xs"
    using Skip.IH heading_rest_skip by blast
  with Skip.hyps show ?case by auto
next
  case (Keep x xs)
  then show ?case by (auto simp: collapse_space_Cons split: if_splits)
qed

lemma heading_in_collapse: "heading_in (collapse_space t) \<Longrightarrow> heading_in t"
proof (induction t rule: squeeze_induct [where c = is_space])
  case Nil
  then show ?case by (simp add: collapse_space_Nil)
next
  case (Skip x xs)
  from Skip.prems Skip.hyps have "heading_in (collapse_space (dropWhile is_space xs))"
    by (simp add: collapse_space_Cons)
  then have "heading_in xs"
    using Skip.IH heading_in_skip by blast
  then show ?case by simp
next
  case (Keep x xs)
  then show ?case
    by (auto simp: collapse_space_Cons dest: heading_rest_collapse)
qed

lemma needs_newline:
  "newline \<notin> set s \<Longrightarrow> (g, rx_one (is_char newline)) \<in> set pat \<Longrightarrow> re_sub pat repl s = s"
proof (rule re_sub_no_match, rule notI)
  assume n: "newline \<notin> set s" and "(g, rx_one (is_char newline)) \<in> set pat"
    and "has_match pat s"
  then have "\<exists>x\<in>set s. is_char newline x"
    using has_match_needs_char [of pat s g "is_char newline" 1 "Some 1"]
    by (simp add: rx_one_def)
  with n show False by (simp add: is_char_def)
qed

lemma no_newline_rules:
  assumes "newline \<notin> set s"
  shows "heading_line s = s" "numbered_item s = s" "dash_item s = s" "sentence_break s = s"
    "collapse_newlines s = s"
proof -
  show "heading_line s = s"
    unfolding heading_line_def by (rule needs_newline [OF assms, of 0]) (simp add: heading_line_pat_def)
  show "numbered_item s = s"
    unfolding numbered_item_def by (rule needs_newline [OF assms, of 0]) simp
  show "dash_item s = s"
    unfolding dash_item_def by (rule needs_newline [OF assms, of 0]) simp
  show "sentence_break s = s"
    unfolding sentence_break_def by (rule needs_newline [OF assms, of 0]) simp
  have "\<not> has_match [(0, rx_at_least 4 (is_char newline))] s"
  proof
    assume "has_match [(0, rx_at_least 4 (is_char newline))] s"
    then have "\<exists>x\<in>set s. is_char newline x"
      using has_match_needs_char [of _ s 0 "is_char newline" 4 None]
      by (simp add: rx_at_least_def)
    with assms show False by (simp add: is_char_def)
  qed
  then show "collapse_newlines s = s"
    unfolding collapse_newlines_def by (rule re_sub_no_match)
qed

text \<open>
  C8, as stated: an input with no match of \<^verbatim>\<open>[A-Z][A-Z\s]+:\<close> would give an output
  without newlines.  Deleting a marker character can bring a heading together: the input
  \<^verbatim>\<open>A*B:c\<close> has no match, and its output is \<^verbatim>\<open>AB:\<close>, a newline and \<^verbatim>\<open>c\<close>.
\<close>

theorem no_heading_no_newline_counterexample:
  "\<not> has_match heading_pat ''A*B:c'' \<and>
   format_response (Some ''A*B:c'') = ''AB:\<newline>c'' \<and>
   newline \<in> set (format_response (Some ''A*B:c''))"
  by (simp add: fmt_defs has_match_def)

text \<open>
  C8, amended: when the input with its marker characters \<^verbatim>\<open>*\<close>, \<^verbatim>\<open>_\<close>, \<^verbatim>\<open>~\<close> and
  the backquote deleted has no match of \<^verbatim>\<open>[A-Z][A-Z\s]+:\<close>, the output of
  \<^verbatim>\<open>format_response\<close> has no newline.
\<close>

theorem no_heading_no_newline:
  assumes "\<not> has_match heading_pat (filter (\<lambda>c. \<not> marker c) x)"
  shows "newline \<notin> set (format_response (Some x))"
proof (cases "x = []")
  case True
  then show ?thesis by (simp add: format_response_def fallback_def)
next
  case False
  let ?u = "strip_marks (strip_stars (strip x))"
  let ?v = "collapse_space ?u"
  have u: "?u = filter (\<lambda>c. \<not> marker c) (strip x)"
    by (simp add: strip_marks_filter strip_stars_filter marker_def conj_commute)
  obtain a b where "x = a @ strip x @ b"
    using strip_decomp by blast
  then have "filter (\<lambda>c. \<not> marker c) x
      = filter (\<lambda>c. \<not> marker c) a @ ?u @ filter (\<lambda>c. \<not> marker c) b"
    unfolding u by (metis filter_append)
  with assms have "\<not> has_match heading_pat ?u"
    using has_match_infix by metis
  then have "\<not> heading_in ?v"
    unfolding has_match_heading using heading_in_collapse by blast
  then have "\<not> has_match heading_split_pat ?v"
    unfolding has_match_heading [symmetric] heading_split_pat_def
    using has_match_prefix_pattern by blast
  then have split: "heading_split ?v = ?v"
    unfolding heading_split_def by (rule re_sub_no_match)
  have nl: "newline \<notin> set ?v" by (rule collapse_space_no_newline)
  have "format_response (Some x) = strip (collapse_blanks ?v)"
    using False by (simp add: format_response_def no_newline_rules [OF nl] split)
  moreover have "newline \<notin> set (strip (collapse_blanks ?v))"
    using nl set_strip [of "collapse_blanks ?v"] collapse_blanks_set [of ?v] by auto
  ultimately show ?thesis by simp
qed

theorem no_heading_no_newline_witness:
  "\<not> has_match heading_pat (filter (\<lambda>c. \<not> marker c) ''Hi *you*,\<newline> ok'') \<and>
   newline \<notin> set (format_response (Some ''Hi *you*,\<newline> ok''))"
  using no_heading_no_newline [of "''Hi *you*,\<newline> ok''"]
  by (simp add: has_match_def marker_def heading_pat_def rx_one_def rx_plus_def is_char_def
      is_upper_def is_space_def first_down.simps)

subsection \<open>Formatting twice\<close>

lemma nl_ins_prefix: "nl_ins x y \<Longrightarrow> nl_ins (u @ x) (u @ y)"
  by (induction u) (auto intro: nl_ins.Keep)

lemma nl_ins_set: "nl_ins x y \<Longrightarrow> set y \<subseteq> set x \<union> {newline}"
  by (induction rule: nl_ins.induct) auto

lemma nl_ins_ends:
  "nl_ins x y \<Longrightarrow> (y = [] \<longleftrightarrow> x = []) \<and> (x \<noteq> [] \<longrightarrow> hd y = hd x \<and> last y = last x)"
  by (induction rule: nl_ins.induct) auto

lemma nl_ins_collapse_space:
  "nl_ins x y \<Longrightarrow>
   collapse_space y = collapse_space x \<and>
   collapse_space (dropWhile is_space y) = collapse_space (dropWhile is_space x)"
  by (induction rule: nl_ins.induct) (auto simp: collapse_space_Cons)

lemma nl_ins_newline_blank:
  "nl_ins x y \<Longrightarrow> newline \<notin> set x \<Longrightarrow>
   y = u @ newline # v \<Longrightarrow> \<exists>v'. v = CHR '' '' # v'"
proof (induction arbitrary: u rule: nl_ins.induct)
  case Nil
  then show ?case by simp
next
  case (Keep x y c)
  from Keep.prems obtain u' where "y = u' @ newline # v"
    by (cases u) auto
  with Keep show ?case by auto
next
  case (Break x y)
  from Break.prems(2) consider "u = '':''" "v = CHR '' '' # y"
    | u' where "y = u' @ newline # v"
    by (auto simp: Cons_eq_append_conv)
  then show ?case
  proof cases
    case 1
    then show ?thesis by simp
  next
    case 2
    with Break show ?thesis by auto
  qed
qed

lemma isolated_mono: "(\<And>x. d x \<Longrightarrow> c x) \<Longrightarrow> isolated c s \<Longrightarrow> isolated d s"
  by (induction s) auto

lemma nl_ins_isolated:
  "nl_ins x y \<Longrightarrow> \<not> c newline \<Longrightarrow> \<not> c CHR '':'' \<Longrightarrow> isolated c x \<Longrightarrow> isolated c y"
proof (induction rule: nl_ins.induct)
  case Nil
  then show ?case by simp
next
  case (Keep x y c')
  then show ?case using nl_ins_ends [of x y] by auto
next
  case (Break x y)
  then show ?case using nl_ins_ends [of x y] by auto
qed

lemma length_re_sub_squeeze:
  "length (re_sub [(g, rx_plus c)] [Lit [b]] s) \<le> length s"
proof (induction s rule: squeeze_induct [where c = c])
  case Nil
  then show ?case by (simp add: re_sub_squeeze_Nil)
next
  case (Skip x xs)
  have "length (dropWhile c xs) \<le> length xs" by (rule length_dropWhile_le)
  with Skip show ?case by (simp add: re_sub_squeeze_Cons)
next
  case (Keep x xs)
  then show ?case by (simp add: re_sub_squeeze_Cons)
qed

lemma squeeze_fixed:
  "\<forall>x\<in>set s. c x \<longrightarrow> x = b \<Longrightarrow> isolated c s \<Longrightarrow> re_sub [(g, rx_plus c)] [Lit [b]] s = s"
proof (induction s)
  case Nil
  then show ?case by (simp add: re_sub_squeeze_Nil)
next
  case (Cons x xs)
  from Cons.prems have ih: "re_sub [(g, rx_plus c)] [Lit [b]] xs = xs"
    by (intro Cons.IH) simp_all
  show ?case
  proof (cases "c x")
    case True
    with Cons.prems have "x = b" and "xs = [] \<or> \<not> c (hd xs)" by simp_all
    then have "dropWhile c xs = xs" by (cases xs) auto
    with True ih \<open>x = b\<close> show ?thesis
      by (simp only: re_sub_squeeze_Cons if_True append_Cons append_Nil)
  next
    case False
    with ih show ?thesis
      by (simp only: re_sub_squeeze_Cons if_False)
  qed
qed

lemma fixed_isolated:
  "re_sub [(g, rx_plus c)] [Lit [b]] s = s \<Longrightarrow> isolated c s"
proof (induction s rule: squeeze_induct [where c = c])
  case Nil
  then show ?case by simp
next
  case (Skip x xs)
  from Skip.hyps have "re_sub [(g, rx_plus c)] [Lit [b]] (x # xs)
      = b # re_sub [(g, rx_plus c)] [Lit [b]] (dropWhile c xs)"
    by (simp only: re_sub_squeeze_Cons if_True append_Cons append_Nil)
  with Skip.prems have "b # re_sub [(g, rx_plus c)] [Lit [b]] (dropWhile c xs) = x # xs"
    by metis
  then have e: "re_sub [(g, rx_plus c)] [Lit [b]] (dropWhile c xs) = xs"
    by blast
  then have "length xs \<le> length (dropWhile c xs)"
    using length_re_sub_squeeze [of g c b "dropWhile c xs"] by simp
  moreover have "length (takeWhile c xs) + length (dropWhile c xs) = length xs"
    by (metis length_append takeWhile_dropWhile_id)
  ultimately have "length (takeWhile c xs) = 0" by arith
  then have "takeWhile c xs = []" by (simp only: length_0_conv)
  then have d: "dropWhile c xs = xs"
    by (metis append_Nil takeWhile_dropWhile_id)
  then have "xs = [] \<or> \<not> c (hd xs)"
    by (metis hd_dropWhile)
  with Skip.IH e d show ?case by simp
next
  case (Keep x xs)
  then show ?case by (simp add: re_sub_squeeze_Cons)
qed

text \<open>Normalised white space: the collapse of white space leaves a text unchanged exactly
  when its only white space is single blanks.\<close>

lemma collapse_space_id_iff:
  "collapse_space x = x \<longleftrightarrow>
     (\<forall>c\<in>set x. is_space c \<longrightarrow> c = CHR '' '') \<and> isolated is_space x"
proof
  assume e: "collapse_space x = x"
  then have "isolated is_space x"
    unfolding collapse_space_def by (rule fixed_isolated)
  moreover have "\<forall>c\<in>set x. is_space c \<longrightarrow> c = CHR '' ''"
    using set_re_sub_squeeze [of 0 is_space "'' ''" x] e
    by (auto simp: collapse_space_def)
  ultimately show "(\<forall>c\<in>set x. is_space c \<longrightarrow> c = CHR '' '') \<and> isolated is_space x"
    by simp
next
  assume "(\<forall>c\<in>set x. is_space c \<longrightarrow> c = CHR '' '') \<and> isolated is_space x"
  then show "collapse_space x = x"
    unfolding collapse_space_def by (intro squeeze_fixed) simp_all
qed

lemma split_match_shape:
  assumes "match_here heading_split_pat t = Some (ps, r)"
  shows "\<exists>a m d. ps = [[a], m, '':'', [d]] \<and> is_upper a \<and> m \<noteq> [] \<and>
           (\<forall>c\<in>set m. is_upper c \<or> is_space c) \<and> d \<noteq> newline \<and>
           t = a # m @ CHR '':'' # d # r"
proof -
  from assms have l: "list_all2 (\<lambda>a p. fits (snd a) p) heading_split_pat ps"
    and t: "t = concat ps @ r"
    using match_sound by blast+
  from l obtain ps1 p4 where ps: "ps = ps1 @ [p4]"
    and 1: "list_all2 (\<lambda>a p. fits (snd a) p) heading_pat ps1"
    and 4: "fits (rx_one (\<lambda>c. c \<noteq> newline)) p4"
    by (auto simp: heading_split_pat_def list_all2_append1 list_all2_Cons1)
  from 4 obtain d where d: "p4 = [d]" "d \<noteq> newline"
    by (cases p4) (auto simp: rx_one_def)
  from 1 obtain a m where "ps1 = [[a], m, '':'']" "is_upper a" "m \<noteq> []"
    "\<forall>c\<in>set m. is_upper c \<or> is_space c"
    unfolding heading_pat_fits by blast
  with ps d t show ?thesis by simp
qed

lemma split_expand:
  "expand [Ref 1, Lit ''\<newline>'', Ref 2] heading_split_pat [[a], m, '':'', [d]]
     = a # m @ CHR '':'' # newline # [d]"
  by (simp add: heading_split_pat_def heading_pat_def)

lemma glued_match:
  assumes "is_upper a" "m \<noteq> []" "\<forall>c\<in>set m. is_upper c \<or> is_space c" "\<not> is_space d"
  shows "match_here heading_glued_pat (a # m @ CHR '':'' # d # r) \<noteq> None"
proof -
  from assms(1-3) have "list_all2 (\<lambda>a p. fits (snd a) p) heading_pat [[a], m, '':'']"
    unfolding heading_pat_fits by blast
  with assms(4)
  have "list_all2 (\<lambda>a p. fits (snd a) p) heading_glued_pat ([[a], m, '':''] @ [[d]])"
    unfolding heading_glued_pat_def
    by (intro list_all2_appendI) (simp_all add: rx_one_def)
  from match_complete [OF this, of r] show ?thesis by simp
qed

lemma heading_split_Nil: "heading_split [] = []"
proof -
  have "match_here heading_split_pat [] = None"
  proof (cases "match_here heading_split_pat []")
    case (Some q)
    then obtain ps r where "match_here heading_split_pat [] = Some (ps, r)"
      by (cases q) auto
    from split_match_shape [OF this] show ?thesis by simp
  qed simp
  then show ?thesis by (simp add: heading_split_def re_sub.simps)
qed

lemma heading_split_nl_ins:
  "\<not> has_match heading_glued_pat x \<Longrightarrow> \<forall>c\<in>set x. is_space c \<longrightarrow> c = CHR '' '' \<Longrightarrow>
   nl_ins x (heading_split x)"
proof (induction x rule: length_induct)
  case (1 x)
  show ?case
  proof (cases x)
    case Nil
    then show ?thesis by (simp add: heading_split_Nil nl_ins.Nil)
  next
    case (Cons c cs)
    from "1.prems" Cons have tail: "\<not> has_match heading_glued_pat cs"
      "\<forall>c\<in>set cs. is_space c \<longrightarrow> c = CHR '' ''"
      using no_match_tail [of heading_glued_pat "[c]" cs] by simp_all
    show ?thesis
    proof (cases "match_here heading_split_pat (c # cs)")
      case None
      then have "heading_split (c # cs) = c # heading_split cs"
        by (simp add: heading_split_def re_sub.simps)
      moreover have "nl_ins cs (heading_split cs)"
        using "1.IH" tail Cons by simp
      ultimately show ?thesis
        using Cons by (simp add: nl_ins.Keep)
    next
      case (Some q)
      then obtain ps r where mt: "match_here heading_split_pat (c # cs) = Some (ps, r)"
        by (cases q) auto
      from split_match_shape [OF mt] obtain a m d where ps: "ps = [[a], m, '':'', [d]]"
        and a: "is_upper a" and m: "m \<noteq> []" "\<forall>c\<in>set m. is_upper c \<or> is_space c"
        and x: "c # cs = a # m @ CHR '':'' # d # r"
        by blast
      have "is_space d"
      proof (rule ccontr)
        assume "\<not> is_space d"
        with a m have "match_here heading_glued_pat (c # cs) \<noteq> None"
          unfolding x by (rule glued_match)
        then have "has_match heading_glued_pat x"
          unfolding Cons by (simp add: has_match_Cons)
        with "1.prems" show False by simp
      qed
      moreover have "d \<in> set x" unfolding Cons x by simp
      ultimately have d: "d = CHR '' ''" using "1.prems" by blast
      have len: "length r < length (c # cs)" unfolding x by simp
      have sub: "\<not> has_match heading_glued_pat r" "\<forall>c\<in>set r. is_space c \<longrightarrow> c = CHR '' ''"
      proof -
        have xr: "x = (a # m @ CHR '':'' # [d]) @ r" using x Cons by simp
        have "\<not> has_match heading_glued_pat ((a # m @ CHR '':'' # [d]) @ r)"
          using "1.prems"(1) unfolding xr .
        then show "\<not> has_match heading_glued_pat r"
          by (rule no_match_tail)
        show "\<forall>c\<in>set r. is_space c \<longrightarrow> c = CHR '' ''"
          using "1.prems"(2) unfolding xr by simp
      qed
      from len Cons have "length r < length x" by simp
      with "1.IH" sub have ih: "nl_ins r (heading_split r)" by blast
      have ex: "expand [Ref 1, Lit ''\<newline>'', Ref 2] heading_split_pat ps
          = (a # m) @ CHR '':'' # newline # [CHR '' '']"
        unfolding ps d by (simp add: heading_split_pat_def heading_pat_def)
      have "heading_split (c # cs)
          = expand [Ref 1, Lit ''\<newline>'', Ref 2] heading_split_pat ps @ heading_split r"
        using mt len by (simp add: heading_split_def re_sub.simps(2) del: expand.simps)
      then have "heading_split (c # cs)
          = (a # m) @ CHR '':'' # newline # CHR '' '' # heading_split r"
        unfolding ex by simp
      moreover have "c # cs = (a # m) @ CHR '':'' # CHR '' '' # r"
        using x d by simp
      moreover have "nl_ins ((a # m) @ CHR '':'' # CHR '' '' # r)
          ((a # m) @ CHR '':'' # newline # CHR '' '' # heading_split r)"
        by (intro nl_ins_prefix nl_ins.Break ih)
      ultimately show ?thesis using Cons by simp
    qed
  qed
qed

lemma match_newline_then:
  assumes "match_here (p1 @ (g, rx_one (is_char newline)) # (g', Rep c lo hi) # p2) t = Some (ps, r)"
    and "0 < lo"
  shows "\<exists>u k v. t = u @ newline # k # v \<and> c k"
proof -
  from assms(1)
  have l: "list_all2 (\<lambda>a p. fits (snd a) p)
             (p1 @ (g, rx_one (is_char newline)) # (g', Rep c lo hi) # p2) ps"
    and t: "t = concat ps @ r"
    using match_sound by blast+
  from l obtain ps1 q1 q2 ps2 where ps: "ps = ps1 @ q1 # q2 # ps2"
    and 1: "fits (rx_one (is_char newline)) q1" and 2: "fits (Rep c lo hi) q2"
    by (auto simp: list_all2_append1 list_all2_Cons1)
  from 1 have q1: "q1 = [newline]"
    by (cases q1) (auto simp: rx_one_def is_char_def)
  from 2 assms(2) obtain k q2' where q2: "q2 = k # q2'" "c k"
    by (cases q2) auto
  have "t = concat ps1 @ newline # k # (q2' @ concat ps2 @ r)"
    using t ps q1 q2 by simp
  with q2 show ?thesis by blast
qed

lemma has_match_newline_then:
  assumes "has_match (p1 @ (g, rx_one (is_char newline)) # (g', Rep c lo hi) # p2) s"
    and "0 < lo"
  shows "\<exists>u k v. s = u @ newline # k # v \<and> c k"
proof -
  from assms(1) obtain w t ps r where s: "s = w @ t"
    and "match_here (p1 @ (g, rx_one (is_char newline)) # (g', Rep c lo hi) # p2) t = Some (ps, r)"
    unfolding in_suffixes_match by auto
  from match_newline_then [OF this(2) assms(2)] obtain u k v
    where "t = u @ newline # k # v" "c k" by blast
  with s have "s = (w @ u) @ newline # k # v \<and> c k" by simp
  then show ?thesis by blast
qed

lemma has_match_newline_run:
  assumes "has_match [(g, rx_at_least 4 (is_char newline))] s"
  shows "\<exists>u v. s = u @ newline # newline # v"
proof -
  from assms obtain w t ps r where s: "s = w @ t"
    and "match_here [(g, rx_at_least 4 (is_char newline))] t = Some (ps, r)"
    unfolding in_suffixes_match by auto
  then have "list_all2 (\<lambda>a p. fits (snd a) p) [(g, rx_at_least 4 (is_char newline))] ps"
    and t: "t = concat ps @ r"
    using match_sound by blast+
  then obtain p where ps: "ps = [p]" and "4 \<le> length p" "\<forall>x\<in>set p. x = newline"
    by (auto simp: list_all2_Cons1 rx_at_least_def list_all_iff is_char_def)
  then obtain p' where "p = newline # newline # p'"
    by (cases p; cases "tl p") auto
  with s t ps have "s = w @ newline # newline # (p' @ r)" by simp
  then show ?thesis by blast
qed

lemma blank_after_newline_rules:
  assumes nb: "\<And>u v. s = u @ newline # v \<Longrightarrow> \<exists>v'. v = CHR '' '' # v'"
  shows "numbered_item s = s" "dash_item s = s" "sentence_break s = s" "collapse_newlines s = s"
proof -
  have no: "\<not> c CHR '' '' \<Longrightarrow> 0 < lo \<Longrightarrow>
      \<not> has_match (p1 @ (g, rx_one (is_char newline)) # (g', Rep c lo hi) # p2) s"
    for c lo p1 g g' hi p2
  proof
    assume c: "\<not> c CHR '' ''" "0 < lo"
      and "has_match (p1 @ (g, rx_one (is_char newline)) # (g', Rep c lo hi) # p2) s"
    from has_match_newline_then [OF this(3) c(2)] obtain u k v
      where "s = u @ newline # k # v" "c k" by blast
    with nb [of u "k # v"] c(1) show False by simp
  qed
  have "\<not> has_match ([] @ (0, rx_one (is_char newline)) # (1, Rep is_digit 1 None)
      # [(1, rx_one (is_char CHR ''.''))]) s"
    by (rule no) (simp_all add: is_digit_def)
  then show "numbered_item s = s"
    unfolding numbered_item_def by (intro re_sub_no_match) (simp add: rx_plus_def)
  have "\<not> has_match ([] @ (0, rx_one (is_char newline)) # (1, Rep (is_char CHR ''-'') 1 (Some 1))
      # [(1, rx_one is_space)]) s"
    by (rule no) (simp_all add: is_char_def)
  then show "dash_item s = s"
    unfolding dash_item_def by (intro re_sub_no_match) (simp add: rx_one_def)
  have "\<not> has_match ([(1, rx_one (\<lambda>c. c \<in> set ''.!?'')), (0, rx_star is_space)]
      @ (0, rx_one (is_char newline)) # (2, Rep is_upper 1 (Some 1)) # []) s"
    by (rule no) simp_all
  then show "sentence_break s = s"
    unfolding sentence_break_def by (intro re_sub_no_match) (simp add: rx_one_def)
  have "\<not> has_match [(0, rx_at_least 4 (is_char newline))] s"
  proof
    assume "has_match [(0, rx_at_least 4 (is_char newline))] s"
    then obtain u v where "s = u @ newline # newline # v"
      using has_match_newline_run by blast
    with nb [of u "newline # v"] show False by simp
  qed
  then show "collapse_newlines s = s"
    unfolding collapse_newlines_def by (rule re_sub_no_match)
qed

lemma dropWhile_id_iff: "dropWhile P s = s \<longleftrightarrow> s = [] \<or> \<not> P (hd s)"
proof (cases s)
  case Nil
  then show ?thesis by simp
next
  case (Cons x xs)
  have "length (dropWhile P xs) \<le> length xs" by (rule length_dropWhile_le)
  then have "dropWhile P xs \<noteq> x # xs" by auto
  with Cons show ?thesis by simp
qed

lemma strip_id_iff:
  "strip s = s \<longleftrightarrow> s = [] \<or> (\<not> is_space (hd s) \<and> \<not> is_space (last s))"
proof (cases "s = []")
  case True
  then show ?thesis by (simp add: strip_def)
next
  case False
  let ?d = "dropWhile is_space s"
  show ?thesis
  proof
    assume e: "strip s = s"
    have "length (strip s) \<le> length ?d"
      unfolding strip_def using length_dropWhile_le [of is_space "rev ?d"] by simp
    with e have "length s \<le> length ?d" by simp
    moreover have "length (takeWhile is_space s) + length ?d = length s"
      by (metis length_append takeWhile_dropWhile_id)
    ultimately have "length (takeWhile is_space s) = 0" by arith
    then have "takeWhile is_space s = []" by (simp only: length_0_conv)
    then have d: "?d = s" by (metis append_Nil takeWhile_dropWhile_id)
    with e have "rev (dropWhile is_space (rev s)) = s" by (simp add: strip_def)
    then have "dropWhile is_space (rev s) = rev s" by (metis rev_rev_ident)
    then have "\<not> is_space (hd (rev s))"
      using False by (simp add: dropWhile_id_iff)
    moreover from d False have "\<not> is_space (hd s)" by (simp add: dropWhile_id_iff)
    ultimately show "s = [] \<or> (\<not> is_space (hd s) \<and> \<not> is_space (last s))"
      using False by (simp add: hd_rev)
  next
    assume "s = [] \<or> (\<not> is_space (hd s) \<and> \<not> is_space (last s))"
    with False have h: "\<not> is_space (hd s)" and l: "\<not> is_space (hd (rev s))"
      by (simp_all add: hd_rev)
    from h have "?d = s" by (simp add: dropWhile_id_iff)
    moreover from l have "dropWhile is_space (rev s) = rev s" by (simp add: dropWhile_id_iff)
    ultimately show "strip s = s" by (simp add: strip_def)
  qed
qed

lemma format_response_steps:
  "s \<noteq> [] \<Longrightarrow>
   format_response (Some s) =
     strip (collapse_blanks (collapse_newlines (sentence_break (dash_item (numbered_item
       (heading_split (heading_line (collapse_space (strip_marks (strip_stars (strip s)))))))))))"
  by (simp add: format_response_def)

lemma format_fallback: "format_response (Some fallback) = fallback"
  by (simp add: fmt_defs has_match_def)

lemma clean_pass:
  assumes clean: "strip x = x" "collapse_space x = x" "\<forall>c\<in>set x. \<not> marker c"
    "\<not> has_match heading_glued_pat x" and ne: "x \<noteq> []"
    and y: "set y \<subseteq> set x \<union> {newline}" "strip y = y" "collapse_space y = x" "y \<noteq> []"
  shows "format_response (Some y) = heading_split x"
proof -
  have sp: "\<forall>c\<in>set x. is_space c \<longrightarrow> c = CHR '' ''"
    using set_re_sub_squeeze [of 0 is_space "'' ''" x] clean(2)
    by (auto simp: collapse_space_def)
  have nlx: "newline \<notin> set x"
    using collapse_space_no_newline [of x] clean(2) by simp
  have mk: "\<forall>c\<in>set y. \<not> marker c"
    using y(1) clean(3) by (auto simp: marker_def)
  then have "strip_stars y = y" "strip_marks y = y"
    unfolding strip_stars_filter strip_marks_filter
    by (auto simp: marker_def filter_id_conv)
  then have start: "collapse_space (strip_marks (strip_stars (strip y))) = x"
    using y by simp
  let ?z = "heading_split x"
  have ins: "nl_ins x ?z"
    using clean(4) sp by (rule heading_split_nl_ins)
  have nb: "\<exists>v'. v = CHR '' '' # v'" if "?z = u @ newline # v" for u v
    using ins nlx that by (rule nl_ins_newline_blank)
  note rules = blank_after_newline_rules [of ?z, OF nb]
  have "isolated is_space x"
    using clean(2) unfolding collapse_space_def by (rule fixed_isolated)
  then have "isolated (\<lambda>c. c = CHR '' '' \<or> c = CHR 0x09) x"
    by (rule isolated_mono [rotated]) (auto simp: is_space_def)
  then have iso: "isolated (\<lambda>c. c = CHR '' '' \<or> c = CHR 0x09) ?z"
    by (intro nl_ins_isolated [OF ins]) simp_all
  have "\<forall>c\<in>set ?z. (c = CHR '' '' \<or> c = CHR 0x09) \<longrightarrow> c = CHR '' ''"
  proof (intro ballI impI)
    fix c assume "c \<in> set ?z" "c = CHR '' '' \<or> c = CHR 0x09"
    moreover have "is_space (CHR 0x09)" by (simp add: is_space_def)
    ultimately show "c = CHR '' ''"
      using nl_ins_set [OF ins] sp by auto
  qed
  then have blanks: "collapse_blanks ?z = ?z"
    unfolding collapse_blanks_def using iso by (rule squeeze_fixed)
  have "strip ?z = ?z"
    using clean(1) ne nl_ins_ends [OF ins] by (simp add: strip_id_iff)
  with blanks rules start no_newline_rules(1) [OF nlx] y(4) show ?thesis
    by (simp add: format_response_steps)
qed

text \<open>
  C5, as stated: on a text without marker characters and with normalised white space,
  formatting twice would give what formatting once gives.  On \<^verbatim>\<open>AB:c\<close> the first pass
  puts a newline after the colon; the second pass turns it into a blank and puts a newline
  before that blank.
\<close>

theorem format_idempotent_counterexample:
  "filter marker ''AB:c'' = [] \<and> strip ''AB:c'' = ''AB:c'' \<and> collapse_space ''AB:c'' = ''AB:c'' \<and>
   format_response (Some ''AB:c'') = ''AB:\<newline>c'' \<and>
   format_response (Some (format_response (Some ''AB:c''))) = ''AB:\<newline> c'' \<and>
   format_response (Some (format_response (Some ''AB:c''))) \<noteq> format_response (Some ''AB:c'')"
  by (simp add: fmt_defs marker_def)

text \<open>
  C5, amended: on a text without marker characters, with normalised white space (the
  formatter's trimming and its white-space collapse leave it unchanged) and with no
  all-caps heading \<^verbatim>\<open>[A-Z][A-Z\s]+:\<close> directly followed by a character other than white
  space, formatting twice gives what formatting once gives.
\<close>

theorem format_idempotent_clean:
  assumes "strip x = x" "collapse_space x = x" "\<forall>c\<in>set x. \<not> marker c"
    "\<not> has_match heading_glued_pat x"
  shows "format_response (Some (format_response (Some x))) = format_response (Some x)"
proof (cases "x = []")
  case True
  then show ?thesis
    using format_fallback by (simp add: format_response_def)
next
  case False
  let ?z = "heading_split x"
  have sp: "\<forall>c\<in>set x. is_space c \<longrightarrow> c = CHR '' ''"
    using set_re_sub_squeeze [of 0 is_space "'' ''" x] assms(2)
    by (auto simp: collapse_space_def)
  have ins: "nl_ins x ?z"
    using assms(4) sp by (rule heading_split_nl_ins)
  have 1: "format_response (Some x) = ?z"
    using assms False by (intro clean_pass) auto
  have "format_response (Some ?z) = ?z"
  proof (rule clean_pass [OF assms False])
    show "set ?z \<subseteq> set x \<union> {newline}" using ins by (rule nl_ins_set)
    show "strip ?z = ?z"
      using assms(1) False nl_ins_ends [OF ins] by (simp add: strip_id_iff)
    show "collapse_space ?z = x"
      using nl_ins_collapse_space [OF ins] assms(2) by simp
    show "?z \<noteq> []" using False nl_ins_ends [OF ins] by simp
  qed
  with 1 show ?thesis by simp
qed

theorem format_idempotent_clean_witness:
  "format_response (Some (format_response (Some ''NOTE: ok''))) = format_response (Some ''NOTE: ok'') \<and>
   format_response (Some ''NOTE: ok'') = ''NOTE:\<newline> ok''"
proof -
  have 1: "strip ''NOTE: ok'' = ''NOTE: ok''"
    by (simp add: strip_def is_space_def)
  have 2: "collapse_space ''NOTE: ok'' = ''NOTE: ok''"
    by (simp add: collapse_space_Cons collapse_space_Nil is_space_def)
  have 3: "\<forall>c\<in>set ''NOTE: ok''. \<not> marker c"
    by (simp add: marker_def)
  have 4: "\<not> has_match heading_glued_pat ''NOTE: ok''"
    by (simp add: has_match_def heading_glued_pat_def heading_pat_def rx_one_def rx_plus_def
        is_char_def is_upper_def is_space_def first_down.simps)
  have "format_response (Some ''NOTE: ok'') = ''NOTE:\<newline> ok''"
    by (simp add: fmt_defs)
  with format_idempotent_clean [OF 1 2 3 4] show ?thesis by simp
qed

subsection \<open>Empty results\<close>

text \<open>
  C1: the formatter never returns the empty string.  The fallback is taken only when the
  input itself is empty or absent; an input of marker characters or of white space alone
  passes that test and the cleanup leaves nothing of it.
\<close>

theorem format_response_empty_result:
  "format_response (Some ''**'') = [] \<and> format_response (Some '' '') = [] \<and>
   format_response (Some ''\<newline>'') = [] \<and> format_response (Some ''_~`'') = []"
  by (simp add: fmt_defs)

section \<open>Properties of the request handlers\<close>

subsection \<open>The context of a decoded history\<close>

lemma history_loop_objects:
  "history_loop e acc (map PDict ms) = Inr (acc @ concat (map (history_turn_line e) ms))"
  by (induction ms arbitrary: acc) simp_all

lemma history_turn_line_turn_of:
  "\<forall>v\<in>snd ` set kvs. \<exists>s. v = PStr s \<Longrightarrow> history_turn_line e kvs = turn_line (turn_of kvs)"
proof -
  assume str: "\<forall>v\<in>snd ` set kvs. \<exists>s. v = PStr s"
  have "\<exists>s. v = PStr s" if "map_of kvs k = Some v" for k v
    using that str by (force dest: map_of_SomeD)
  then have "(case map_of kvs ''content'' of None \<Rightarrow> '''' | Some (PStr s) \<Rightarrow> s | Some v \<Rightarrow> py_str e v)
      = dict_get (turn_of kvs) ''content'' ''''"
    by (cases "map_of kvs ''content''") (fastforce simp: dict_get_def turn_of_def)+
  moreover have "map_of kvs ''role'' = Some (PStr ''user'') \<longleftrightarrow> turn_of kvs ''role'' = Some ''user''"
    by (auto simp: turn_of_def split: option.splits pyval.splits)
  ultimately show ?thesis
    by (simp add: history_turn_line_def turn_line_def role_of_def)
qed

text \<open>On a list of objects with string values, the context the handlers build is that of
  \<open>build_conversation_context\<close> on the turns.\<close>

lemma history_context_turns:
  assumes "\<forall>kvs\<in>set ms. \<forall>v\<in>snd ` set kvs. \<exists>s. v = PStr s"
  shows "history_context e (PList (map PDict ms))
     = Inr (build_conversation_context (map turn_of ms))"
proof (cases "ms = []")
  case True
  then show ?thesis by (simp add: history_context_def build_conversation_context_def)
next
  case False
  have win: "last_n 10 (map PDict ms) = map PDict (last_n 10 ms)"
    "last_n 10 (map turn_of ms) = map turn_of (last_n 10 ms)"
    by (simp_all add: last_n_def drop_map)
  have "set (last_n 10 ms) \<subseteq> set ms"
    by (simp add: last_n_def set_drop_subset)
  with assms have "map (history_turn_line e) (last_n 10 ms)
      = map turn_line (map turn_of (last_n 10 ms))"
    unfolding map_map comp_def
    by (intro map_cong refl history_turn_line_turn_of) blast
  then have "concat (map (history_turn_line e) (last_n 10 ms))
      = concat (map turn_line (map turn_of (last_n 10 ms)))"
    by (rule arg_cong)
  then have "history_loop e context_header (map PDict (last_n 10 ms))
      = Inr (context_loop context_header (map turn_of (last_n 10 ms)))"
    unfolding history_loop_objects context_loop_concat by (rule arg_cong)
  then show ?thesis
    using False
    by (simp add: history_context_def build_conversation_context_def win)
qed

text \<open>A list of objects never makes the context raise.\<close>

lemma history_context_objects:
  "\<exists>ctx. history_context e (PList (map PDict ms)) = Inr ctx"
  by (simp add: history_context_def last_n_def drop_map history_loop_objects)

subsection \<open>Uploads\<close>

text \<open>
  C6: once the upload handler has a file with a name, has saved it and has built the
  context, the answer in its response is picked by the type of the file.  A mime type
  starting with \<^verbatim>\<open>image/\<close> gives the answer of image processing, which, with a model,
  sends the model the image; otherwise a mime type starting with \<^verbatim>\<open>text/\<close> or a file
  name ending in one of the eight extensions gives the answer of text-file processing,
  which, with a model and a file that decodes, sends the model the text of the file; any
  other file gets the fixed message naming its mime type, and no call to the model is
  made.
\<close>

theorem file_type_dispatch:
  assumes "filename f \<noteq> []"
    and "path = os_path_join UPLOAD_FOLDER (token_hex e @ ''_'' @ filename f)"
    and "can_save e path"
    and "history_context e (upload_history e (form req)) = Inr ctx"
    and "msg = dict_get (form req) ''message'' ''''"
    and "ws = w\<lparr>fs := (fs w)(path \<mapsto> content f)\<rparr>"
    and "url = ''/static/uploads/'' @ token_hex e @ ''_'' @ filename f"
  shows
    "(prefix ''image/'' (mimetype f) \<longrightarrow>
        handle_file_upload e req f w =
          (Inr (200, Upload_body (fst (process_image_file e path (mimetype f) msg ctx ws)) url
                  (filename f) (mimetype f)),
           snd (process_image_file e path (mimetype f) msg ctx ws)) \<and>
        (\<forall>m. model e = Some m \<longrightarrow>
           calls (snd (handle_file_upload e req f w)) =
             calls w @ [Image_prompt
               (SYSTEM_INSTRUCTION @ ctx @ ''\<newline>\<newline>''
                  @ (if msg \<noteq> [] then msg else image_instructions))
               (mimetype f) (b64encode e (content f))])) \<and>
     (\<not> prefix ''image/'' (mimetype f) \<and>
      (prefix ''text/'' (mimetype f) \<or>
       (\<exists>ext \<in> set [''.txt'', ''.py'', ''.js'', ''.html'', ''.css'', ''.json'', ''.xml'', ''.csv''].
          suffix ext (filename f))) \<longrightarrow>
        handle_file_upload e req f w =
          (Inr (200, Upload_body (fst (process_text_file e path (filename f) msg ctx ws)) url
                  (filename f) (mimetype f)),
           snd (process_text_file e path (filename f) msg ctx ws)) \<and>
        (\<forall>m txt. model e = Some m \<and> decode_utf8 e (content f) = Some txt \<longrightarrow>
           calls (snd (handle_file_upload e req f w)) =
             calls w @ [Text_prompt
               (SYSTEM_INSTRUCTION @ ctx @ ''\<newline>\<newline>''
                  @ ''I've uploaded a file called '' @ [CHR 0x27] @ filename f @ [CHR 0x27]
                  @ ''. Could you analyze it?\<newline>\<newline>''
                  @ ''Here's the content:\<newline>\<newline>```\<newline>'' @ txt
                  @ ''\<newline>```\<newline>\<newline>''
                  @ (if msg \<noteq> [] then msg else file_instructions))])) \<and>
     (\<not> prefix ''image/'' (mimetype f) \<and> \<not> prefix ''text/'' (mimetype f) \<and>
      \<not> (\<exists>ext \<in> set [''.txt'', ''.py'', ''.js'', ''.html'', ''.css'', ''.json'', ''.xml'', ''.csv''].
          suffix ext (filename f)) \<longrightarrow>
        handle_file_upload e req f w =
          (Inr (200, Upload_body
                  (''Sorry, I don't support files of type '' @ [CHR 0x27] @ mimetype f @ [CHR 0x27]
                     @ ''. I can analyze images and text files.'')
                  url (filename f) (mimetype f)),
           ws) \<and>
        calls (snd (handle_file_upload e req f w)) = calls w)"
proof -
  have ext: "endswith_any (filename f) text_extensions \<longleftrightarrow>
      (\<exists>ext \<in> set [''.txt'', ''.py'', ''.js'', ''.html'', ''.css'', ''.json'', ''.xml'', ''.csv''].
          suffix ext (filename f))"
    by (simp add: endswith_any_def text_extensions_def list_ex_iff)
  have saved: "fs ws path = Some (content f)" and cw: "calls ws = calls w"
    using assms(6) by simp_all
  have run: "handle_file_upload e req f w =
      (Inr (200, Upload_body (fst (file_answer e f path msg ctx ws)) url (filename f) (mimetype f)),
       snd (file_answer e f path msg ctx ws))"
    using assms by (simp add: handle_file_upload_def Let_def split: prod.splits)
  have img: "calls (snd (process_image_file e path (mimetype f) msg ctx ws)) =
      calls w @ [Image_prompt
               (SYSTEM_INSTRUCTION @ ctx @ ''\<newline>\<newline>''
                  @ (if msg \<noteq> [] then msg else image_instructions))
               (mimetype f) (b64encode e (content f))]"
    if "model e = Some m" for m
    using that saved cw
    by (simp add: process_image_file_def generate_content_def Let_def split: generation.splits)
  have fil: "calls (snd (process_text_file e path (filename f) msg ctx ws)) =
      calls w @ [Text_prompt
               (SYSTEM_INSTRUCTION @ ctx @ ''\<newline>\<newline>''
                  @ ''I've uploaded a file called '' @ [CHR 0x27] @ filename f @ [CHR 0x27]
                  @ ''. Could you analyze it?\<newline>\<newline>''
                  @ ''Here's the content:\<newline>\<newline>```\<newline>'' @ t
                  @ ''\<newline>```\<newline>\<newline>''
                  @ (if msg \<noteq> [] then msg else file_instructions))]"
    if "model e = Some m" "decode_utf8 e (content f) = Some t" for m t
    using that saved cw
    by (simp add: process_text_file_def generate_content_def Let_def split: generation.splits)
  show ?thesis
    unfolding run ext [symmetric]
    using img fil cw by (auto simp: file_answer_def)
qed

theorem file_type_dispatch_witness:
  "handle_file_upload example_env
     \<lparr>file_field = Some \<lparr>filename = ''cat.png'', mimetype = ''image/png'', content = ''data''\<rparr>,
      form = [''message'' \<mapsto> ''hello''], json = Inl ''not json''\<rparr>
     \<lparr>filename = ''cat.png'', mimetype = ''image/png'', content = ''data''\<rparr>
     \<lparr>fs = Map.empty, calls = []\<rparr>
   = (Inr (200, Upload_body ''Hi there!'' ''/static/uploads/0123456789abcdef_cat.png''
             ''cat.png'' ''image/png''),
      \<lparr>fs = [''static/uploads/0123456789abcdef_cat.png'' \<mapsto> ''data''],
       calls = [Image_prompt (SYSTEM_INSTRUCTION @ ''\<newline>\<newline>hello'') ''image/png'' ''data'']\<rparr>) \<and>
   handle_file_upload example_env
     \<lparr>file_field = Some \<lparr>filename = ''data.csv'', mimetype = ''application/octet-stream'',
        content = ''1,2''\<rparr>,
      form = [''message'' \<mapsto> ''hello''], json = Inl ''not json''\<rparr>
     \<lparr>filename = ''data.csv'', mimetype = ''application/octet-stream'', content = ''1,2''\<rparr>
     \<lparr>fs = Map.empty, calls = []\<rparr>
   = (Inr (200, Upload_body ''Hi there!'' ''/static/uploads/0123456789abcdef_data.csv''
             ''data.csv'' ''application/octet-stream''),
      \<lparr>fs = [''static/uploads/0123456789abcdef_data.csv'' \<mapsto> ''1,2''],
       calls = [Text_prompt (SYSTEM_INSTRUCTION
          @ ''\<newline>\<newline>I've uploaded a file called 'data.csv'. Could you analyze it?\<newline>\<newline>Here's the content:\<newline>\<newline>```\<newline>1,2\<newline>```\<newline>\<newline>hello'')]\<rparr>) \<and>
   handle_file_upload example_env
     \<lparr>file_field = Some \<lparr>filename = ''doc.pdf'', mimetype = ''application/pdf'', content = ''%PDF''\<rparr>,
      form = [''message'' \<mapsto> ''hello''], json = Inl ''not json''\<rparr>
     \<lparr>filename = ''doc.pdf'', mimetype = ''application/pdf'', content = ''%PDF''\<rparr>
     \<lparr>fs = Map.empty, calls = []\<rparr>
   = (Inr (200, Upload_body
             ''Sorry, I don't support files of type 'application/pdf'. I can analyze images and text files.''
             ''/static/uploads/0123456789abcdef_doc.pdf'' ''doc.pdf'' ''application/pdf''),
      \<lparr>fs = [''static/uploads/0123456789abcdef_doc.pdf'' \<mapsto> ''%PDF''], calls = []\<rparr>)"
proof -
  have hist: "history_context example_env (upload_history example_env [''message'' \<mapsto> ''hello''])
      = Inr []"
    by (simp add: history_context_def upload_history_def dict_get_def example_env_def)
  have answer: "format_response (Some ''Hi there!'') = ''Hi there!''"
    by (simp add: fmt_defs)
  have png: "os_path_join UPLOAD_FOLDER (token_hex example_env @ ''_'' @ ''cat.png'')
      = ''static/uploads/0123456789abcdef_cat.png''"
    and csv: "os_path_join UPLOAD_FOLDER (token_hex example_env @ ''_'' @ ''data.csv'')
      = ''static/uploads/0123456789abcdef_data.csv''"
    and pdf: "os_path_join UPLOAD_FOLDER (token_hex example_env @ ''_'' @ ''doc.pdf'')
      = ''static/uploads/0123456789abcdef_doc.pdf''"
    by (simp_all add: os_path_join_def UPLOAD_FOLDER_def example_env_def suffix_to_prefix)
  note d = file_type_dispatch
    [where e = example_env and ctx = "[]" and msg = "''hello''"
       and w = "\<lparr>fs = Map.empty, calls = []\<rparr>"]
  have 1: "handle_file_upload example_env
     \<lparr>file_field = Some \<lparr>filename = ''cat.png'', mimetype = ''image/png'', content = ''data''\<rparr>,
      form = [''message'' \<mapsto> ''hello''], json = Inl ''not json''\<rparr>
     \<lparr>filename = ''cat.png'', mimetype = ''image/png'', content = ''data''\<rparr>
     \<lparr>fs = Map.empty, calls = []\<rparr>
   = (Inr (200, Upload_body ''Hi there!'' ''/static/uploads/0123456789abcdef_cat.png''
             ''cat.png'' ''image/png''),
      \<lparr>fs = [''static/uploads/0123456789abcdef_cat.png'' \<mapsto> ''data''],
       calls = [Image_prompt (SYSTEM_INSTRUCTION @ ''\<newline>\<newline>hello'') ''image/png'' ''data'']\<rparr>)"
    using d [where f = "\<lparr>filename = ''cat.png'', mimetype = ''image/png'', content = ''data''\<rparr>"
        and path = "''static/uploads/0123456789abcdef_cat.png''"
        and url = "''/static/uploads/0123456789abcdef_cat.png''"
        and ws = "\<lparr>fs = [''static/uploads/0123456789abcdef_cat.png'' \<mapsto> ''data''], calls = []\<rparr>"
        and req = "\<lparr>file_field = Some \<lparr>filename = ''cat.png'', mimetype = ''image/png'',
             content = ''data''\<rparr>, form = [''message'' \<mapsto> ''hello''], json = Inl ''not json''\<rparr>"]
      hist png answer
    by (simp add: dict_get_def process_image_file_def generate_content_def example_env_def)
  have 2: "handle_file_upload example_env
     \<lparr>file_field = Some \<lparr>filename = ''data.csv'', mimetype = ''application/octet-stream'',
        content = ''1,2''\<rparr>,
      form = [''message'' \<mapsto> ''hello''], json = Inl ''not json''\<rparr>
     \<lparr>filename = ''data.csv'', mimetype = ''application/octet-stream'', content = ''1,2''\<rparr>
     \<lparr>fs = Map.empty, calls = []\<rparr>
   = (Inr (200, Upload_body ''Hi there!'' ''/static/uploads/0123456789abcdef_data.csv''
             ''data.csv'' ''application/octet-stream''),
      \<lparr>fs = [''static/uploads/0123456789abcdef_data.csv'' \<mapsto> ''1,2''],
       calls = [Text_prompt (SYSTEM_INSTRUCTION
          @ ''\<newline>\<newline>I've uploaded a file called 'data.csv'. Could you analyze it?\<newline>\<newline>Here's the content:\<newline>\<newline>```\<newline>1,2\<newline>```\<newline>\<newline>hello'')]\<rparr>)"
    using d [where f = "\<lparr>filename = ''data.csv'', mimetype = ''application/octet-stream'',
            content = ''1,2''\<rparr>"
        and path = "''static/uploads/0123456789abcdef_data.csv''"
        and url = "''/static/uploads/0123456789abcdef_data.csv''"
        and ws = "\<lparr>fs = [''static/uploads/0123456789abcdef_data.csv'' \<mapsto> ''1,2''], calls = []\<rparr>"
        and req = "\<lparr>file_field = Some \<lparr>filename = ''data.csv'',
             mimetype = ''application/octet-stream'', content = ''1,2''\<rparr>,
             form = [''message'' \<mapsto> ''hello''], json = Inl ''not json''\<rparr>"]
      hist csv answer
    by (simp add: dict_get_def process_text_file_def generate_content_def example_env_def
        suffix_to_prefix)
  have 3: "handle_file_upload example_env
     \<lparr>file_field = Some \<lparr>filename = ''doc.pdf'', mimetype = ''application/pdf'', content = ''%PDF''\<rparr>,
      form = [''message'' \<mapsto> ''hello''], json = Inl ''not json''\<rparr>
     \<lparr>filename = ''doc.pdf'', mimetype = ''application/pdf'', content = ''%PDF''\<rparr>
     \<lparr>fs = Map.empty, calls = []\<rparr>
   = (Inr (200, Upload_body
             ''Sorry, I don't support files of type 'application/pdf'. I can analyze images and text files.''
             ''/static/uploads/0123456789abcdef_doc.pdf'' ''doc.pdf'' ''application/pdf''),
      \<lparr>fs = [''static/uploads/0123456789abcdef_doc.pdf'' \<mapsto> ''%PDF''], calls = []\<rparr>)"
    using d [where f = "\<lparr>filename = ''doc.pdf'', mimetype = ''application/pdf'', content = ''%PDF''\<rparr>"
        and path = "''static/uploads/0123456789abcdef_doc.pdf''"
        and url = "''/static/uploads/0123456789abcdef_doc.pdf''"
        and ws = "\<lparr>fs = [''static/uploads/0123456789abcdef_doc.pdf'' \<mapsto> ''%PDF''], calls = []\<rparr>"
        and req = "\<lparr>file_field = Some \<lparr>filename = ''doc.pdf'', mimetype = ''application/pdf'',
             content = ''%PDF''\<rparr>, form = [''message'' \<mapsto> ''hello''], json = Inl ''not json''\<rparr>"]
      hist pdf
    by (simp add: dict_get_def example_env_def suffix_to_prefix)
  from 1 2 3 show ?thesis by (intro conjI)
qed



subsection \<open>Chat messages\<close>

text \<open>
  C9: a JSON chat request (one without a file) whose \<^verbatim>\<open>message\<close> is missing, or
  present with a false value such as the empty string, gets the response 400 with the
  error \<^verbatim>\<open>No message provided\<close>; the state is unchanged, so the model is not called.
\<close>

theorem falsy_message_rejected:
  "file_field req = None \<Longrightarrow> json req = Inr (Some d) \<Longrightarrow>
   (case message d of None \<Rightarrow> True | Some v \<Rightarrow> \<not> truthy v) \<Longrightarrow>
   chat e req w = ((400, Error_body ''No message provided''), w)"
  by (simp add: chat_def split: option.splits)

theorem falsy_message_rejected_witness:
  "chat example_env
     \<lparr>file_field = None, form = Map.empty,
      json = Inr (Some \<lparr>message = Some (PStr ''''), conversation_history = None\<rparr>)\<rparr>
     \<lparr>fs = Map.empty, calls = []\<rparr>
   = ((400, Error_body ''No message provided''), \<lparr>fs = Map.empty, calls = []\<rparr>) \<and>
   chat example_env
     \<lparr>file_field = None, form = Map.empty,
      json = Inr (Some \<lparr>message = None, conversation_history = None\<rparr>)\<rparr>
     \<lparr>fs = Map.empty, calls = []\<rparr>
   = ((400, Error_body ''No message provided''), \<lparr>fs = Map.empty, calls = []\<rparr>)"
  using
    falsy_message_rejected
      [of "\<lparr>file_field = None, form = Map.empty,
            json = Inr (Some \<lparr>message = Some (PStr ''''), conversation_history = None\<rparr>)\<rparr>"
        "\<lparr>message = Some (PStr ''''), conversation_history = None\<rparr>" example_env
        "\<lparr>fs = Map.empty, calls = []\<rparr>"]
    falsy_message_rejected
      [of "\<lparr>file_field = None, form = Map.empty,
            json = Inr (Some \<lparr>message = None, conversation_history = None\<rparr>)\<rparr>"
        "\<lparr>message = None, conversation_history = None\<rparr>" example_env
        "\<lparr>fs = Map.empty, calls = []\<rparr>"]
  by simp

subsection \<open>Uploads of an unsupported type\<close>

text \<open>
  C10, as stated: every upload of an unsupported type would be saved and answered with
  200.  With a history field that decodes to the number 5 the file is saved, building the
  context raises and the response is 500; when the file cannot be saved the response is
  500 and nothing is saved.
\<close>

theorem unsupported_upload_saved_counterexample:
  "\<not> prefix ''image/'' ''application/pdf'' \<and> \<not> prefix ''text/'' ''application/pdf'' \<and>
   \<not> endswith_any ''doc.pdf'' text_extensions \<and>
   chat example_env
     \<lparr>file_field = Some \<lparr>filename = ''doc.pdf'', mimetype = ''application/pdf'', content = ''%PDF''\<rparr>,
      form = [''conversation_history'' \<mapsto> ''5''], json = Inl ''not json''\<rparr>
     \<lparr>fs = Map.empty, calls = []\<rparr>
   = ((500, Error_body ''An error occurred: 'int' object is not subscriptable''),
      \<lparr>fs = [''static/uploads/0123456789abcdef_doc.pdf'' \<mapsto> ''%PDF''], calls = []\<rparr>) \<and>
   chat (example_env\<lparr>can_save := (\<lambda>p. False)\<rparr>)
     \<lparr>file_field = Some \<lparr>filename = ''doc.pdf'', mimetype = ''application/pdf'', content = ''%PDF''\<rparr>,
      form = Map.empty, json = Inl ''not json''\<rparr>
     \<lparr>fs = Map.empty, calls = []\<rparr>
   = ((500, Error_body ''Failed to save file''), \<lparr>fs = Map.empty, calls = []\<rparr>)"
  by (simp add: chat_def handle_file_upload_def upload_history_def history_context_def
      not_subscriptable_error_def internal_error_def dict_get_def example_env_def
      endswith_any_def text_extensions_def os_path_join_def UPLOAD_FOLDER_def suffix_to_prefix)

text \<open>
  C10, amended: an upload of an unsupported type whose file is saved without error and
  whose history field lets the context be built (it is missing, malformed, false or a
  list of objects) is saved under the uploads folder as the random token, an underscore
  and the file name before the type is looked at; the response is 200 with the
  unsupported-type message, the URL of the saved file, its name and its mime type, and no
  call to the model is made.
\<close>

theorem unsupported_upload_saved:
  "filename f \<noteq> [] \<Longrightarrow>
   set (token_hex e) \<subseteq> set ''0123456789abcdef'' \<Longrightarrow>
   can_save e (''static/uploads/'' @ token_hex e @ ''_'' @ filename f) \<Longrightarrow>
   history_context e (upload_history e (form req)) = Inr ctx \<Longrightarrow>
   \<not> prefix ''image/'' (mimetype f) \<Longrightarrow> \<not> prefix ''text/'' (mimetype f) \<Longrightarrow>
   \<not> endswith_any (filename f) text_extensions \<Longrightarrow>
   file_field req = Some f \<Longrightarrow>
   handle_file_upload e req f w =
     (Inr (200, Upload_body
         (''Sorry, I don't support files of type '' @ [CHR 0x27] @ mimetype f @ [CHR 0x27]
            @ ''. I can analyze images and text files.'')
         (''/static/uploads/'' @ token_hex e @ ''_'' @ filename f) (filename f) (mimetype f)),
      w\<lparr>fs := (fs w)(''static/uploads/'' @ token_hex e @ ''_'' @ filename f \<mapsto> content f)\<rparr>) \<and>
   chat e req w =
     ((200, Upload_body
         (''Sorry, I don't support files of type '' @ [CHR 0x27] @ mimetype f @ [CHR 0x27]
            @ ''. I can analyze images and text files.'')
         (''/static/uploads/'' @ token_hex e @ ''_'' @ filename f) (filename f) (mimetype f)),
      w\<lparr>fs := (fs w)(''static/uploads/'' @ token_hex e @ ''_'' @ filename f \<mapsto> content f)\<rparr>)"
proof -
  assume tok: "set (token_hex e) \<subseteq> set ''0123456789abcdef''"
  have "\<not> prefix ''/'' (token_hex e @ ''_'' @ filename f)"
  proof (cases "token_hex e")
    case Nil
    then show ?thesis by simp
  next
    case (Cons c cs)
    with tok have "c \<noteq> CHR ''/''" by auto
    with Cons show ?thesis by simp
  qed
  then have path: "os_path_join UPLOAD_FOLDER (token_hex e @ ''_'' @ filename f)
      = ''static/uploads/'' @ token_hex e @ ''_'' @ filename f"
    by (simp add: os_path_join_def UPLOAD_FOLDER_def suffix_to_prefix)
  assume "filename f \<noteq> []"
    "can_save e (''static/uploads/'' @ token_hex e @ ''_'' @ filename f)"
    "history_context e (upload_history e (form req)) = Inr ctx"
    "\<not> prefix ''image/'' (mimetype f)" "\<not> prefix ''text/'' (mimetype f)"
    "\<not> endswith_any (filename f) text_extensions"
  with path have up: "handle_file_upload e req f w =
     (Inr (200, Upload_body
         (''Sorry, I don't support files of type '' @ [CHR 0x27] @ mimetype f @ [CHR 0x27]
            @ ''. I can analyze images and text files.'')
         (''/static/uploads/'' @ token_hex e @ ''_'' @ filename f) (filename f) (mimetype f)),
      w\<lparr>fs := (fs w)(''static/uploads/'' @ token_hex e @ ''_'' @ filename f \<mapsto> content f)\<rparr>)"
    by (simp add: handle_file_upload_def file_answer_def Let_def)
  assume "file_field req = Some f"
  with up show ?thesis by (simp add: chat_def)
qed

theorem unsupported_upload_saved_witness:
  "chat example_env
     \<lparr>file_field = Some \<lparr>filename = ''doc.pdf'', mimetype = ''application/pdf'', content = ''%PDF''\<rparr>,
      form = Map.empty, json = Inl ''not json''\<rparr>
     \<lparr>fs = Map.empty, calls = []\<rparr>
   = ((200, Upload_body
         ''Sorry, I don't support files of type 'application/pdf'. I can analyze images and text files.''
         ''/static/uploads/0123456789abcdef_doc.pdf'' ''doc.pdf'' ''application/pdf''),
      \<lparr>fs = [''static/uploads/0123456789abcdef_doc.pdf'' \<mapsto> ''%PDF''], calls = []\<rparr>)"
proof -
  have hist: "history_context example_env (upload_history example_env Map.empty) = Inr []"
    by (simp add: history_context_def upload_history_def dict_get_def example_env_def)
  from unsupported_upload_saved
    [of "\<lparr>filename = ''doc.pdf'', mimetype = ''application/pdf'', content = ''%PDF''\<rparr>"
      example_env
      "\<lparr>file_field = Some \<lparr>filename = ''doc.pdf'', mimetype = ''application/pdf'',
          content = ''%PDF''\<rparr>, form = Map.empty, json = Inl ''not json''\<rparr>"
      "[]" "\<lparr>fs = Map.empty, calls = []\<rparr>"] hist
  show ?thesis
    by (simp add: example_env_def endswith_any_def text_extensions_def suffix_to_prefix)
qed

end
